theory Spec2Isabelle
  imports Main "HOL-Library.Monad_Syntax" "HOL-Library.Word"
begin

unbundle bit_operations_syntax

section \<open>Go's \<open>int\<close> on a 64-bit target\<close>

text \<open>
  Go's \<open>int\<close> is a two's complement machine integer; on the 64-bit targets the program is
  built for it has 64 bits. Values are modelled as \<open>int\<close> in the range
  \<open>-2^63 \<le> x < 2^63\<close>, and every arithmetic result is wrapped back into that range by
  \<open>i64\<close>, as the Go specification prescribes for signed overflow. Division truncates
  towards zero.
\<close>

definition i64 :: "int \<Rightarrow> int" where
  "i64 x = (x + 9223372036854775808) mod 18446744073709551616 - 9223372036854775808"

definition add64 :: "int \<Rightarrow> int \<Rightarrow> int" where
  "add64 a b = i64 (a + b)"

definition sub64 :: "int \<Rightarrow> int \<Rightarrow> int" where
  "sub64 a b = i64 (a - b)"

definition mul64 :: "int \<Rightarrow> int \<Rightarrow> int" where
  "mul64 a b = i64 (a * b)"

definition quo64 :: "int \<Rightarrow> int \<Rightarrow> int" where
  "quo64 a b = i64 (if (0 \<le> a) = (0 \<le> b) then \<bar>a\<bar> div \<bar>b\<bar> else - (\<bar>a\<bar> div \<bar>b\<bar>))"

section \<open>The slot of a pair in the skip matrix\<close>

text \<open>
  \<^verbatim>\<open>func Offset(n, row, col int) int {
      return (n*row + col) - (((row+1)*(row+1)-(row+1))/2 + row + 1)
  }\<close>
\<close>

definition Offset :: "int \<Rightarrow> int \<Rightarrow> int \<Rightarrow> int" where
  "Offset n row col =
     sub64 (add64 (mul64 n row) col)
           (add64 (add64 (quo64 (sub64 (mul64 (add64 row 1) (add64 row 1)) (add64 row 1)) 2) row) 1)"

text \<open>
  The specification's formula, over the mathematical integers:
  \<open>slot = row\<cdot>n + col - row\<cdot>(row+1)/2 - (row+1)\<close>.
\<close>

definition spec_slot :: "int \<Rightarrow> int \<Rightarrow> int \<Rightarrow> int" where
  "spec_slot n row col = row * n + col - row * (row + 1) div 2 - (row + 1)"

lemma i64_id: "- 9223372036854775808 \<le> x \<Longrightarrow> x < 9223372036854775808 \<Longrightarrow> i64 x = x"
  by (simp add: i64_def)

lemma quo64_nonneg: "0 \<le> a \<Longrightarrow> a < 9223372036854775808 \<Longrightarrow> quo64 a 2 = a div 2"
  by (simp add: quo64_def i64_def)

lemma tri_even: "2 * (r * (r + 1) div 2) = r * (r + (1::int))"
proof -
  have "even (r * (r + 1))" by simp
  then show ?thesis by (rule even_two_times_div_two)
qed

text \<open>While \<open>n\<cdot>n\<close> fits in 63 bits no intermediate result of \<open>Offset\<close> wraps.\<close>

lemma Offset_exact:
  assumes "2 \<le> n" "n * n < 9223372036854775808" "0 \<le> row" "row < col" "col < n"
  shows "Offset n row col = spec_slot n row col"
proof -
  define N where "N = n * n"
  define s where "s = (row + 1) * (row + 1)"
  define p where "p = n * row"
  have rn: "row + 1 < n" using assms by simp
  have N: "N < 9223372036854775808" using assms by (simp add: N_def)
  have p1: "p \<le> N - n"
  proof -
    have "n * row \<le> n * (n - 1)" using assms by (intro mult_left_mono) auto
    then show ?thesis by (simp add: p_def N_def algebra_simps)
  qed
  have p0: "0 \<le> p" using assms by (simp add: p_def)
  have s1: "s \<le> N" unfolding s_def N_def using assms rn by (intro mult_mono) auto
  have "1 * (row + 1) \<le> (row + 1) * (row + 1)" using assms by (intro mult_right_mono) auto
  then have s0: "row + 1 \<le> s" by (simp add: s_def)
  define t where "t = (s - (row + 1)) div 2"
  have t0: "0 \<le> t" using s0 by (simp add: t_def)
  have t1: "t \<le> s" using s0 assms(3) unfolding t_def by linarith
  have t2: "t + row + 1 \<le> s" using s0 assms(3) unfolding t_def by linarith
  have "s - (row + 1) = row * (row + 1)" by (simp add: s_def algebra_simps)
  then have teq: "t = row * (row + 1) div 2" by (simp add: t_def)
  note facts = assms p0 p1 N t0 t1 t2 s0 s1
  have e1: "add64 row 1 = row + 1"
    unfolding add64_def by (rule i64_id) (use facts in linarith)+
  have e2: "mul64 (row + 1) (row + 1) = s"
    unfolding mul64_def e1 s_def[symmetric] by (rule i64_id) (use facts in linarith)+
  have e3: "sub64 s (row + 1) = s - (row + 1)"
    unfolding sub64_def by (rule i64_id) (use facts in linarith)+
  have e4: "quo64 (s - (row + 1)) 2 = t"
    unfolding t_def by (rule quo64_nonneg) (use facts in linarith)+
  have e5: "add64 t row = t + row"
    unfolding add64_def by (rule i64_id) (use facts in linarith)+
  have e6: "add64 (t + row) 1 = t + row + 1"
    unfolding add64_def by (rule i64_id) (use facts in linarith)+
  have e7: "mul64 n row = p"
    unfolding mul64_def p_def[symmetric] by (rule i64_id) (use facts in linarith)+
  have e8: "add64 p col = p + col"
    unfolding add64_def by (rule i64_id) (use facts in linarith)+
  have e9: "sub64 (p + col) (t + row + 1) = p + col - (t + row + 1)"
    unfolding sub64_def by (rule i64_id) (use facts in linarith)+
  show ?thesis
    unfolding Offset_def e1 e2 e3 e4 e5 e6 e7 e8 e9
    by (simp add: teq p_def spec_slot_def algebra_simps)
qed

lemma two_slot: "2 * spec_slot n r c = 2 * (r * n) + 2 * c - r * r - 3 * r - 2"
proof -
  have "2 * spec_slot n r c = 2 * (r * n) + 2 * c - 2 * (r * (r + 1) div 2) - 2 * (r + 1)"
    by (simp add: spec_slot_def)
  also have "\<dots> = 2 * (r * n) + 2 * c - r * (r + 1) - 2 * (r + 1)"
    by (simp only: tri_even)
  finally show ?thesis by (simp add: algebra_simps)
qed

text \<open>A pair of a later row lies in a strictly later slot.\<close>

lemma slot_row_mono:
  assumes "0 \<le> r" "r < r'" "r < c" "c < n" "r' < c'" "c' < n"
  shows "spec_slot n r c < spec_slot n r' c'"
proof -
  define X where "X = (r' - r) * (2 * n - r' - r - 3)"
  define A where "A = r * n"
  define A' where "A' = r' * n"
  define B where "B = r * r"
  define B' where "B' = r' * r'"
  have "1 * (2 * n - r' - r - 3) \<le> X"
    unfolding X_def by (rule mult_right_mono) (use assms in linarith)+
  then have m: "2 * n - r' - r - 3 \<le> X" by simp
  have x: "X = 2 * A' - 2 * A - B' + B - 3 * r' + 3 * r"
    by (simp add: X_def A_def A'_def B_def B'_def algebra_simps)
  have "2 * A + 2 * c - B - 3 * r - 2 < 2 * A' + 2 * c' - B' - 3 * r' - 2"
    using m x assms by linarith
  then have "2 * spec_slot n r c < 2 * spec_slot n r' c'"
    by (simp only: two_slot A_def A'_def B_def B'_def)
  then show ?thesis by simp
qed

lemma slot_nonneg:
  assumes "0 \<le> r" "r < c" "c < n"
  shows "0 \<le> spec_slot n r c"
proof -
  define X where "X = r * (2 * n - r - 3)"
  define A where "A = r * n"
  define B where "B = r * r"
  have x0: "0 \<le> X"
    unfolding X_def by (rule mult_nonneg_nonneg) (use assms in linarith)+
  have x: "X = 2 * A - B - 3 * r"
    by (simp add: X_def A_def B_def algebra_simps)
  have "0 \<le> 2 * A + 2 * c - B - 3 * r - 2"
    using x0 x assms by linarith
  then have "0 \<le> 2 * spec_slot n r c"
    by (simp only: two_slot A_def B_def)
  then show ?thesis by simp
qed

lemma slot_upper:
  assumes "0 \<le> r" "r < c" "c < n"
  shows "spec_slot n r c < n * (n - 1) div 2"
proof -
  define X where "X = (n - r - 1) * (n - r - 2)"
  define A where "A = r * n"
  define B where "B = r * r"
  define N where "N = n * n"
  define k where "k = n * (n - 1) div 2"
  have x0: "0 \<le> X"
    unfolding X_def by (rule mult_nonneg_nonneg) (use assms in linarith)+
  have x: "X = N - 2 * A + B - 3 * n + 3 * r + 2"
    by (simp add: X_def A_def B_def N_def algebra_simps)
  have k: "2 * k = N - n"
  proof -
    have "even (n * (n - 1))" by simp
    then have "2 * (n * (n - 1) div 2) = n * (n - 1)" by (rule even_two_times_div_two)
    then show ?thesis by (simp add: k_def N_def algebra_simps)
  qed
  have "2 * A + 2 * c - B - 3 * r - 2 < 2 * k"
    using x0 x k assms by linarith
  then have "2 * spec_slot n r c < 2 * k"
    by (simp only: two_slot A_def B_def)
  then have "spec_slot n r c < k" by linarith
  then show ?thesis by (simp only: k_def)
qed

lemma slot_inj:
  assumes "0 \<le> r" "r < c" "c < n" "0 \<le> r'" "r' < c'" "c' < n"
    and eq: "spec_slot n r c = spec_slot n r' c'"
  shows "r = r' \<and> c = c'"
proof -
  have "\<not> r < r'" using slot_row_mono[of r r' c n c'] assms by auto
  moreover have "\<not> r' < r" using slot_row_mono[of r' r c' n c] assms by auto
  ultimately have "r = r'" by simp
  with eq show ?thesis by (simp add: spec_slot_def)
qed

text \<open>
  Claim C1, as amended. \<open>Offset\<close> is computed in Go's 64-bit \<open>int\<close>. For every \<open>n \<ge> 2\<close>
  whose square fits that type (\<open>n\<cdot>n < 2^63\<close>, which includes every \<open>n\<close> in \<open>[2, 50]\<close>) and
  all \<open>0 \<le> row < col < n\<close>: \<open>Offset n row col\<close> equals the formula
  \<open>row\<cdot>n + col - row\<cdot>(row+1)/2 - (row+1)\<close>, lies in \<open>[0, n(n-1)/2)\<close>, and no other such
  pair of the same \<open>n\<close> has the same slot.
\<close>

theorem Offset_unique_slot:
  assumes "2 \<le> n" and "n * n < 9223372036854775808"
    and "0 \<le> row" and "row < col" and "col < n"
  shows "Offset n row col = spec_slot n row col
       \<and> 0 \<le> Offset n row col
       \<and> Offset n row col < n * (n - 1) div 2
       \<and> (\<forall>row' col'. 0 \<le> row' \<and> row' < col' \<and> col' < n
              \<and> Offset n row' col' = Offset n row col \<longrightarrow> row' = row \<and> col' = col)"
proof -
  have e: "Offset n row col = spec_slot n row col"
    using assms by (rule Offset_exact)
  have inj: "row' = row \<and> col' = col"
    if h: "0 \<le> row' \<and> row' < col' \<and> col' < n \<and> Offset n row' col' = Offset n row col"
    for row' col'
  proof -
    have "Offset n row' col' = spec_slot n row' col'"
      using assms(1,2) h by (intro Offset_exact) auto
    with h e have "spec_slot n row' col' = spec_slot n row col" by simp
    then show ?thesis
      using slot_inj[of row' col' n row col] h assms by simp
  qed
  have lo: "0 \<le> Offset n row col"
    unfolding e using assms(3-5) by (rule slot_nonneg)
  have hi: "Offset n row col < n * (n - 1) div 2"
    unfolding e using assms(3-5) by (rule slot_upper)
  from e lo hi inj show ?thesis by blast
qed

theorem Offset_unique_slot_witness:
  "Offset 4 1 3 = 4 \<and> spec_slot 4 1 3 = 4 \<and> (4::int) < 4 * (4 - 1) div 2
     \<and> Offset 4 0 3 \<noteq> Offset 4 1 3"
proof -
  have "Offset 4 1 3 = spec_slot 4 1 3 \<and> Offset 4 1 3 < 4 * (4 - 1) div 2"
    using Offset_unique_slot[of 4 1 3] by simp
  moreover have "spec_slot 4 1 3 = 4"
    by (simp add: spec_slot_def)
  moreover have "Offset 4 0 3 = 2"
    by (simp add: Offset_def add64_def sub64_def mul64_def quo64_def i64_def)
  ultimately show ?thesis by simp
qed

text \<open>
  Claim C1 as stated, for every \<open>n \<ge> 2\<close>, fails where the 64-bit arithmetic wraps:
  with \<open>n = 2^32 + 2\<close> the pairs \<open>(2^32 - 1, 2^32)\<close> and \<open>(1, 2^31 - 1)\<close> share the slot
  \<open>6442450942\<close>, which is not the value of the formula at the first pair.
\<close>

theorem Offset_wraps_counterexample:
  "Offset 4294967298 4294967295 4294967296 = 6442450942
     \<and> Offset 4294967298 1 2147483647 = 6442450942
     \<and> spec_slot 4294967298 4294967295 4294967296 = 9223372043297226750
     \<and> (4294967298::int) < 9223372036854775808"
  by (simp add: spec_slot_def Offset_def add64_def sub64_def mul64_def quo64_def i64_def)


section \<open>Errors\<close>

text \<open>
  A Go \<open>error\<close> is a value with an \<open>Error() string\<close> method. \<open>errorString\<close> stands for
  the errors made by \<open>errors.New\<close> (and for the errors of the standard library, by their
  message); \<open>errImpossible\<close> is the package's own wrapper
  \<^verbatim>\<open>type errImpossible struct { e error }\<close>.

  \<^verbatim>\<open>func (e errImpossible) Unwrap() error { return e.e }
  func (e errImpossible) Error() string { return "error should not be possible: " + e.Error() }\<close>

  In the body of \<open>Error\<close> the receiver \<open>e\<close> is the \<open>errImpossible\<close> value itself, so
  \<open>e.Error()\<close> is a call of the same method on the same value. A call that does not
  return has the value \<open>None\<close>.
\<close>

datatype error = errorString string | errImpossible error

fun Unwrap :: "error \<Rightarrow> error option" where
  "Unwrap (errImpossible e) = Some e"
| "Unwrap (errorString s) = None"

partial_function (option) Error :: "error \<Rightarrow> string option" where
  "Error err =
     (case err of
        errorString s \<Rightarrow> Some s
      | errImpossible e \<Rightarrow>
          Error err \<bind> (\<lambda>m. Some (''error should not be possible: '' @ m)))"

lemma Error_errorString: "Error (errorString s) = Some s"
  by (simp add: Error.simps)

lemma Error_Some_errorString:
  assumes "Error err = Some m"
  shows "\<exists>s. err = errorString s"
proof (rule Error.raw_induct[where P = "\<lambda>x y. \<exists>s. x = errorString s", OF _ assms])
  fix f :: "error \<Rightarrow> string option" and x y
  assume ih: "\<And>x y. f x = Some y \<Longrightarrow> \<exists>s. x = errorString s"
    and eq: "(case x of errorString s \<Rightarrow> Some s
             | errImpossible e \<Rightarrow>
                 f x \<bind> (\<lambda>m. Some (''error should not be possible: '' @ m))) = Some y"
  show "\<exists>s. x = errorString s"
  proof (cases x)
    case (errorString s)
    then show ?thesis by simp
  next
    case (errImpossible e)
    with eq obtain m' where "f x = Some m'"
      by (auto simp: bind_eq_Some_conv)
    then show ?thesis by (rule ih)
  qed
qed

lemma Error_errImpossible: "Error (errImpossible e) = None"
proof (cases "Error (errImpossible e)")
  case None
  then show ?thesis .
next
  case (Some m)
  then have "\<exists>s. errImpossible e = errorString s" by (rule Error_Some_errorString)
  then show ?thesis by simp
qed

declare Error_errorString [simp, code] Error_errImpossible [simp, code]

definition SkipRemaining :: error where
  "SkipRemaining = errorString ''skip remaining''"

definition errSameItem :: error where
  "errSameItem = errorString ''comparing item with itself''"

section \<open>The pairwise deduplicator\<close>

subsection \<open>Selections\<close>

text \<open>
  \<^verbatim>\<open>type selection uint8
  const ( None selection = iota; Left; Right )\<close>
\<close>

type_synonym selection = "8 word"

definition None_selection :: selection where
  "None_selection = 0"

definition Left :: selection where
  "Left = 1"

definition Right :: selection where
  "Right = 2"

fun decimal :: "nat \<Rightarrow> string" where
  "decimal n =
     (if n < 10 then [char_of (48 + n)] else decimal (n div 10) @ [char_of (48 + n mod 10)])"

declare decimal.simps [simp del]

definition selection_String :: "selection \<Rightarrow> string" where
  "selection_String s =
     (if s = None_selection then ''None''
      else if s = Left then ''Left''
      else if s = Right then ''Right''
      else ''invalid selection ('' @ decimal (unat s) @ '')'')"

subsection \<open>State of one pass\<close>

text \<open>
  A pass owns the skip matrix and the result slice. What it does to the outside is kept
  as well: \<open>calls\<close> lists the invocations of \<open>compareFn\<close> in order, each with the pair of
  indices it was given and its outcome; \<open>skipped\<close> lists the pairs that were passed over
  without a call; \<open>sink\<close> is what \<open>slog\<close> received; \<open>world\<close> is
  whatever the compare function reads and changes (a file system, a call counter).
  A compare function returns a selection and an error, or panics. A pass ends by
  returning, by a panic, or by the fatal stack overflow of a call that never returns.
\<close>

datatype level = LevelDebug | LevelInfo | LevelError

datatype 'a logrec = Rec level string 'a 'a "(string \<times> string) option"

datatype stop = Panic string | StackOverflow

type_synonym outcome = "stop + selection \<times> error option"

type_synonym call = "int \<times> int \<times> outcome"

record ('a, 'w) pass =
  skipMatrix :: "bool list"
  duplicates :: "int list"
  calls :: "call list"
  skipped :: "(int \<times> int) list"
  sink :: "'a logrec list"
  world :: 'w

type_synonym ('c, 'a, 'w) CompareFuncContext =
  "'c \<Rightarrow> 'a \<Rightarrow> 'a \<Rightarrow> 'w \<Rightarrow> outcome \<times> 'w"

subsection \<open>\<open>IndexesContext\<close>\<close>

text \<open>
  \<^verbatim>\<open>for c := col + 1; c < n; c++ { skipMatrix[Offset(n, row, c)] = true }\<close>
  (and the same loop with \<open>r = col\<close> in the \<open>Right\<close> case). An index outside the slice
  panics.
\<close>

function mark :: "int \<Rightarrow> int \<Rightarrow> int \<Rightarrow> bool list \<Rightarrow> stop + bool list" where
  "mark n r c sm =
     (if c < n then
        (let i = Offset n r c in
         if i < 0 \<or> int (length sm) \<le> i then Inl (Panic ''index out of range'')
         else mark n r (c + 1) (sm[nat i := True]))
      else Inr sm)"
  by pat_completeness auto
termination
  by (relation "measure (\<lambda>(n, r, c, sm). nat (n - c))") auto

text \<open>The body of the inner loop, for one pair \<open>(row, col)\<close>.\<close>

definition visit ::
  "'c \<Rightarrow> 'a list \<Rightarrow> ('c, 'a, 'w) CompareFuncContext \<Rightarrow> int \<Rightarrow> int \<Rightarrow> int
     \<Rightarrow> ('a, 'w) pass \<Rightarrow> ('a, 'w) pass \<times> stop option" where
  "visit ctx input compareFn n row col st =
     (let i = Offset n row col; left = input ! nat row; right = input ! nat col in
      if i < 0 \<or> int (length (skipMatrix st)) \<le> i then (st, Some (Panic ''index out of range''))
      else if skipMatrix st ! nat i then
        (st\<lparr>skipped := skipped st @ [(row, col)],
            sink := sink st @ [Rec LevelDebug ''skipping comparison'' left right None]\<rparr>, None)
      else
        (case compareFn ctx left right (world st) of
           (res, w) \<Rightarrow>
             let st1 = st\<lparr>world := w, calls := calls st @ [(row, col, res)]\<rparr> in
             (case res of
                Inl p \<Rightarrow> (st1, Some p)
              | Inr (dup, Some e) \<Rightarrow>
                  (case Error e of
                     None \<Rightarrow> (st1, Some StackOverflow)
                   | Some m \<Rightarrow>
                       (st1\<lparr>sink := sink st1 @
                          [Rec LevelError ''comparison failure'' left right (Some (''err'', m))]\<rparr>,
                        None))
              | Inr (dup, None) \<Rightarrow>
                  let st2 = st1\<lparr>sink := sink st1 @
                              [Rec LevelInfo ''comparison'' left right
                                 (Some (''duplicate'', selection_String dup))]\<rparr> in
                  if dup = None_selection then (st2, None)
                  else if dup = Left then
                    (case mark n row (col + 1) (skipMatrix st2) of
                       Inl p \<Rightarrow> (st2, Some p)
                     | Inr sm \<Rightarrow>
                         (st2\<lparr>skipMatrix := sm, duplicates := duplicates st2 @ [row]\<rparr>, None))
                  else if dup = Right then
                    (case mark n col (col + 1) (skipMatrix st2) of
                       Inl p \<Rightarrow> (st2, Some p)
                     | Inr sm \<Rightarrow>
                         (st2\<lparr>skipMatrix := sm, duplicates := duplicates st2 @ [col]\<rparr>, None))
                  else
                    (st2, Some (Panic (''invalid selection option '' @ decimal (unat dup)))))))"

text \<open>\<^verbatim>\<open>for col := row + 1; col < n; col++ { ... }\<close>\<close>

function colLoop ::
  "'c \<Rightarrow> 'a list \<Rightarrow> ('c, 'a, 'w) CompareFuncContext \<Rightarrow> int \<Rightarrow> int \<Rightarrow> int
     \<Rightarrow> ('a, 'w) pass \<Rightarrow> ('a, 'w) pass \<times> stop option" where
  "colLoop ctx input compareFn n row col st =
     (if col < n then
        (case visit ctx input compareFn n row col st of
           (st', None) \<Rightarrow> colLoop ctx input compareFn n row (col + 1) st'
         | (st', Some x) \<Rightarrow> (st', Some x))
      else (st, None))"
  by pat_completeness auto
termination
  by (relation "measure (\<lambda>(ctx, input, compareFn, n, row, col, st). nat (n - col))") auto

text \<open>\<^verbatim>\<open>for row := 0; row < n-1; row++ { ... }\<close>\<close>

function rowLoop ::
  "'c \<Rightarrow> 'a list \<Rightarrow> ('c, 'a, 'w) CompareFuncContext \<Rightarrow> int \<Rightarrow> int
     \<Rightarrow> ('a, 'w) pass \<Rightarrow> ('a, 'w) pass \<times> stop option" where
  "rowLoop ctx input compareFn n row st =
     (if row < n - 1 then
        (case colLoop ctx input compareFn n row (row + 1) st of
           (st', None) \<Rightarrow> rowLoop ctx input compareFn n (row + 1) st'
         | (st', Some x) \<Rightarrow> (st', Some x))
      else (st, None))"
  by pat_completeness auto
termination
  by (relation "measure (\<lambda>(ctx, input, compareFn, n, row, st). nat (n - row))") auto

declare mark.simps [simp del] colLoop.simps [simp del] rowLoop.simps [simp del]

text \<open>
  \<^verbatim>\<open>n := len(input); size := (n*n - n) / 2; skipMatrix := make([]bool, size)\<close>
  \<open>make\<close> panics on a negative length.
\<close>

definition IndexesContext ::
  "'c \<Rightarrow> 'a list \<Rightarrow> ('c, 'a, 'w) CompareFuncContext \<Rightarrow> 'w \<Rightarrow> ('a, 'w) pass \<times> stop option" where
  "IndexesContext ctx input compareFn w =
     (let n = int (length input);
          size = quo64 (sub64 (mul64 n n) n) 2;
          st = \<lparr>skipMatrix = replicate (nat size) False, duplicates = [], calls = [],
                skipped = [], sink = [], world = w\<rparr>
      in if size < 0 then (st, Some (Panic ''makeslice: len out of range''))
         else rowLoop ctx input compareFn n 0 st)"

text \<open>The value the caller receives, if the pass returns.\<close>

definition returned :: "('a, 'w) pass \<times> stop option \<Rightarrow> int list option" where
  "returned r = (case snd r of None \<Rightarrow> Some (duplicates (fst r)) | Some x \<Rightarrow> None)"


subsection \<open>What a pass leaves behind\<close>

text \<open>
  A call at \<open>(row, col)\<close> places an index in the result exactly when it returned no
  error and \<open>Left\<close> (the row) or \<open>Right\<close> (the col). The loops keep the following facts:
  the calls are made at pairs \<open>0 \<le> row < col < n\<close> in strictly increasing row-major
  order; every slot marked stays marked; after a \<open>Left\<close> at \<open>(row, col)\<close> the slots
  \<open>(row, c)\<close>, \<open>c > col\<close>, are marked, after a \<open>Right\<close> the slots \<open>(col, c)\<close>, \<open>c > col\<close>;
  the result lists the placed indices in the order of their calls.
\<close>

definition decided :: "call \<Rightarrow> int option" where
  "decided k =
     (case k of (row, col, res) \<Rightarrow>
        if res = Inr (Left, None) then Some row
        else if res = Inr (Right, None) then Some col
        else None)"

definition marked :: "int \<Rightarrow> bool list \<Rightarrow> int \<Rightarrow> int \<Rightarrow> bool" where
  "marked n sm i c0 \<longleftrightarrow>
     (\<forall>c. c0 \<le> c \<and> c < n \<longrightarrow>
        0 \<le> Offset n i c \<and> Offset n i c < int (length sm) \<and> sm ! nat (Offset n i c))"

definition grows :: "bool list \<Rightarrow> bool list \<Rightarrow> bool" where
  "grows sm sm' \<longleftrightarrow> length sm' = length sm \<and> (\<forall>j < length sm. sm ! j \<longrightarrow> sm' ! j)"

lemma grows_refl: "grows sm sm"
  by (simp add: grows_def)

lemma grows_trans: "grows a b \<Longrightarrow> grows b c \<Longrightarrow> grows a c"
  by (simp add: grows_def)

lemma grows_update: "grows sm (sm[j := True])"
  by (cases "j < length sm") (auto simp: grows_def nth_list_update)

lemma marked_grows: "marked n sm i c0 \<Longrightarrow> grows sm sm' \<Longrightarrow> marked n sm' i c0"
  unfolding marked_def grows_def
  by (metis nat_less_iff)

lemma mark_Inr:
  "mark n r c sm = Inr sm' \<Longrightarrow> grows sm sm' \<and> marked n sm' r c"
proof (induction n r c sm rule: mark.induct)
  case (1 n r c sm)
  show ?case
  proof (cases "c < n")
    case False
    with 1(2) show ?thesis
      by (auto simp: mark.simps[of n r c sm] grows_refl marked_def)
  next
    case True
    define i where "i = Offset n r c"
    from True 1(2) have rng: "0 \<le> i" "i < int (length sm)"
      and rec: "mark n r (c + 1) (sm[nat i := True]) = Inr sm'"
      by (auto simp: mark.simps[of n r c sm] i_def Let_def split: if_splits)
    from 1(1)[OF True i_def[symmetric, THEN sym] _ rec] rng
    have ih: "grows (sm[nat i := True]) sm'" "marked n sm' r (c + 1)"
      by (auto simp: i_def)
    have g: "grows sm sm'"
      using grows_update ih(1) by (rule grows_trans)
    have "sm' ! nat i"
      using ih(1) rng by (simp add: grows_def)
    with ih(2) rng ih(1) have "marked n sm' r c"
      unfolding marked_def i_def grows_def
      by (metis zless_imp_add1_zle order_le_less length_list_update)
    with g show ?thesis by simp
  qed
qed


definition in_scan :: "int \<Rightarrow> call \<Rightarrow> bool" where
  "in_scan n k = (case k of (r, c, res) \<Rightarrow> 0 \<le> r \<and> r < c \<and> c < n)"

definition before :: "call \<Rightarrow> call \<Rightarrow> bool" where
  "before k k' =
     (case k of (r, c, res) \<Rightarrow> case k' of (r', c', res') \<Rightarrow> r < r' \<or> (r = r' \<and> c < c'))"

definition spares :: "call \<Rightarrow> call \<Rightarrow> bool" where
  "spares k k' =
     (case k of (r, c, res) \<Rightarrow> case k' of (r', c', res') \<Rightarrow>
        (res = Inr (Left, None) \<longrightarrow> r' \<noteq> r \<and> c' \<noteq> r) \<and>
        (res = Inr (Right, None) \<longrightarrow> r' \<noteq> c))"

definition marks :: "int \<Rightarrow> bool list \<Rightarrow> call \<Rightarrow> bool" where
  "marks n sm k =
     (case k of (r, c, res) \<Rightarrow>
        (res = Inr (Left, None) \<longrightarrow> marked n sm r (c + 1)) \<and>
        (res = Inr (Right, None) \<longrightarrow> marked n sm c (c + 1)))"

definition scanned :: "int \<Rightarrow> call list \<Rightarrow> bool" where
  "scanned n cs \<longleftrightarrow>
     (\<forall>k \<in> set cs. in_scan n k) \<and> sorted_wrt before cs \<and> sorted_wrt spares cs"

definition Inv :: "int \<Rightarrow> ('a, 'w) pass \<Rightarrow> int \<Rightarrow> int \<Rightarrow> bool" where
  "Inv n st row col \<longleftrightarrow>
     scanned n (calls st)
     \<and> (\<forall>k \<in> set (calls st). before k (row, col, Inr (0, None)) \<and> marks n (skipMatrix st) k)
     \<and> duplicates st = List.map_filter decided (calls st)"

lemma marks_grows: "marks n sm k \<Longrightarrow> grows sm sm' \<Longrightarrow> marks n sm' k"
  unfolding marks_def by (auto split: prod.splits intro: marked_grows)

lemma new_call:
  assumes inv: "Inv n st row col"
    and pos: "0 \<le> row" "row < col" "col < n"
    and rng: "0 \<le> Offset n row col" "Offset n row col < int (length (skipMatrix st))"
    and unset: "\<not> skipMatrix st ! nat (Offset n row col)"
  shows "scanned n (calls st @ [(row, col, res)])"
proof -
  have "before k (row, col, res) \<and> spares k (row, col, res)" if k: "k \<in> set (calls st)" for k
  proof -
    obtain r c res' where kk: "k = (r, c, res')" by (metis prod_cases3)
    from inv k kk have b: "r < row \<or> (r = row \<and> c < col)"
      and m: "marks n (skipMatrix st) (r, c, res')"
      and s: "0 \<le> r" "r < c" "c < n"
      by (auto simp: Inv_def before_def scanned_def in_scan_def)
    have l: "r \<noteq> row" if "res' = Inr (Left, None)"
    proof
      assume "r = row"
      with b m that pos have "skipMatrix st ! nat (Offset n row col)"
        by (auto simp: marks_def marked_def)
      with unset show False by simp
    qed
    have r: "c \<noteq> row" if "res' = Inr (Right, None)"
    proof
      assume "c = row"
      with m that pos have "skipMatrix st ! nat (Offset n row col)"
        by (auto simp: marks_def marked_def)
      with unset show False by simp
    qed
    from b s pos l r show ?thesis
      by (auto simp: kk before_def spares_def)
  qed
  with inv pos show ?thesis
    by (auto simp: scanned_def Inv_def sorted_wrt_append in_scan_def)
qed

lemma Inv_skip:
  assumes "Inv n st row col" "calls st' = calls st" "skipMatrix st' = skipMatrix st"
    "duplicates st' = duplicates st"
  shows "Inv n st' row (col + 1)"
  using assms by (fastforce simp: Inv_def before_def split: prod.splits)

lemma Inv_extend:
  assumes inv: "Inv n st row col"
    and sc: "scanned n (calls st @ [(row, col, res)])"
    and c: "calls st' = calls st @ [(row, col, res)]"
    and g: "grows (skipMatrix st) (skipMatrix st')"
    and m: "marks n (skipMatrix st') (row, col, res)"
    and dp: "duplicates st' = duplicates st @
               (case decided (row, col, res) of None \<Rightarrow> [] | Some i \<Rightarrow> [i])"
  shows "Inv n st' row (col + 1)"
proof -
  have "before k (row, col + 1, Inr (0, None)) \<and> marks n (skipMatrix st') k"
    if "k \<in> set (calls st')" for k
  proof (cases "k = (row, col, res)")
    case True
    with m show ?thesis by (simp add: before_def)
  next
    case False
    with that c have "k \<in> set (calls st)" by simp
    with inv have "before k (row, col, Inr (0, None))" "marks n (skipMatrix st) k"
      by (auto simp: Inv_def)
    with g show ?thesis
      by (auto simp: before_def intro: marks_grows split: prod.splits)
  qed
  moreover have "duplicates st' = List.map_filter decided (calls st')"
    using inv dp c by (simp add: Inv_def map_filter_def split: option.splits)
  ultimately show ?thesis
    using sc c by (simp add: Inv_def)
qed

lemma visit_out_of_range:
  "Offset n row col < 0 \<or> int (length (skipMatrix st)) \<le> Offset n row col \<Longrightarrow>
   visit ctx input compareFn n row col st = (st, Some (Panic ''index out of range''))"
  by (simp add: visit_def Let_def)

lemma visit_skip:
  "\<not> (Offset n row col < 0 \<or> int (length (skipMatrix st)) \<le> Offset n row col) \<Longrightarrow>
   skipMatrix st ! nat (Offset n row col) \<Longrightarrow>
   visit ctx input compareFn n row col st =
     (st\<lparr>skipped := skipped st @ [(row, col)],
         sink := sink st @
           [Rec LevelDebug ''skipping comparison'' (input ! nat row) (input ! nat col) None]\<rparr>,
      None)"
  by (simp add: visit_def Let_def)

lemma visit_call:
  assumes "\<not> (Offset n row col < 0 \<or> int (length (skipMatrix st)) \<le> Offset n row col)"
    and "\<not> skipMatrix st ! nat (Offset n row col)"
    and "compareFn ctx (input ! nat row) (input ! nat col) (world st) = (res, w)"
    and "visit ctx input compareFn n row col st = (st', stop)"
  shows "calls st' = calls st @ [(row, col, res)]"
    and "stop = None \<Longrightarrow> res \<noteq> Inr (Left, None) \<Longrightarrow> res \<noteq> Inr (Right, None) \<Longrightarrow>
           skipMatrix st' = skipMatrix st \<and> duplicates st' = duplicates st"
    and "stop = None \<Longrightarrow> res = Inr (Left, None) \<Longrightarrow>
           mark n row (col + 1) (skipMatrix st) = Inr (skipMatrix st')
           \<and> duplicates st' = duplicates st @ [row]"
    and "stop = None \<Longrightarrow> res = Inr (Right, None) \<Longrightarrow>
           mark n col (col + 1) (skipMatrix st) = Inr (skipMatrix st')
           \<and> duplicates st' = duplicates st @ [col]"
proof -
  note ev = assms(4)[unfolded visit_def Let_def, simplified assms(1-3) if_False prod.case]
  show "calls st' = calls st @ [(row, col, res)]"
    using ev by (auto split: option.splits if_splits sum.splits prod.splits)
  show "stop = None \<Longrightarrow> res \<noteq> Inr (Left, None) \<Longrightarrow> res \<noteq> Inr (Right, None) \<Longrightarrow>
           skipMatrix st' = skipMatrix st \<and> duplicates st' = duplicates st"
    using ev by (auto split: option.splits sum.splits prod.splits if_splits)
  show "stop = None \<Longrightarrow> res = Inr (Left, None) \<Longrightarrow>
           mark n row (col + 1) (skipMatrix st) = Inr (skipMatrix st')
           \<and> duplicates st' = duplicates st @ [row]"
    using ev by (auto simp: None_selection_def Left_def split: sum.splits)
  show "stop = None \<Longrightarrow> res = Inr (Right, None) \<Longrightarrow>
           mark n col (col + 1) (skipMatrix st) = Inr (skipMatrix st')
           \<and> duplicates st' = duplicates st @ [col]"
    using ev by (auto simp: None_selection_def Left_def Right_def split: sum.splits)
qed

lemma visit_inv:
  assumes inv: "Inv n st row col" and pos: "0 \<le> row" "row < col" "col < n"
    and v: "visit ctx input compareFn n row col st = (st', stop)"
  shows "scanned n (calls st') \<and> (stop = None \<longrightarrow> Inv n st' row (col + 1))"
proof -
  have sc0: "scanned n (calls st)" using inv by (simp add: Inv_def)
  show ?thesis
  proof (cases "Offset n row col < 0 \<or> int (length (skipMatrix st)) \<le> Offset n row col")
    case True
    from visit_out_of_range[OF True, of ctx input compareFn] v sc0 show ?thesis by simp
  next
    case rng: False
    show ?thesis
    proof (cases "skipMatrix st ! nat (Offset n row col)")
      case True
      from visit_skip[OF rng True, of ctx input compareFn] v
      have "calls st' = calls st" "skipMatrix st' = skipMatrix st"
        "duplicates st' = duplicates st" "stop = None"
        by auto
      with inv sc0 show ?thesis by (auto intro: Inv_skip)
    next
      case unset: False
      obtain res w where cmp:
        "compareFn ctx (input ! nat row) (input ! nat col) (world st) = (res, w)"
        by (metis surj_pair)
      note vc = visit_call[OF rng unset cmp v]
      have sc: "scanned n (calls st @ [(row, col, res)])"
        using inv pos rng unset by (intro new_call) auto
      have "Inv n st' row (col + 1)" if stop: "stop = None"
        using inv sc vc(1)
      proof (rule Inv_extend)
        consider (l) "res = Inr (Left, None)" | (r) "res = Inr (Right, None)"
          | (o) "res \<noteq> Inr (Left, None)" "res \<noteq> Inr (Right, None)"
          by blast
        then have "grows (skipMatrix st) (skipMatrix st')
            \<and> marks n (skipMatrix st') (row, col, res)
            \<and> duplicates st' = duplicates st @
                (case decided (row, col, res) of None \<Rightarrow> [] | Some i \<Rightarrow> [i])"
        proof cases
          case l
          with vc(3)[OF stop] mark_Inr[of n row "col + 1" "skipMatrix st" "skipMatrix st'"]
          show ?thesis
            by (simp add: marks_def decided_def Left_def Right_def)
        next
          case r
          with vc(4)[OF stop] mark_Inr[of n col "col + 1" "skipMatrix st" "skipMatrix st'"]
          show ?thesis
            by (simp add: marks_def decided_def Left_def Right_def)
        next
          case o
          with vc(2)[OF stop] show ?thesis
            by (simp add: grows_refl marks_def decided_def)
        qed
        then show "grows (skipMatrix st) (skipMatrix st')"
          and "marks n (skipMatrix st') (row, col, res)"
          and "duplicates st' = duplicates st @
                (case decided (row, col, res) of None \<Rightarrow> [] | Some i \<Rightarrow> [i])"
          by simp_all
      qed
      with sc vc(1) show ?thesis by simp
    qed
  qed
qed

lemma Inv_next_row: "Inv n st row col \<Longrightarrow> Inv n st (row + 1) col'"
  by (fastforce simp: Inv_def before_def split: prod.splits)

lemma colLoop_inv:
  assumes "Inv n st row col" "0 \<le> row" "row < col"
    and "colLoop ctx input compareFn n row col st = (st', stop)"
  shows "scanned n (calls st') \<and> (stop = None \<longrightarrow> Inv n st' (row + 1) (row + 2))"
  using assms
proof (induction ctx input compareFn n row col st rule: colLoop.induct)
  case (1 ctx input compareFn n row col st)
  show ?case
  proof (cases "col < n")
    case False
    with 1(5) have "st' = st" "stop = None"
      by (simp_all add: colLoop.simps[of ctx input compareFn n row col st])
    with 1(2) Inv_next_row[OF 1(2), of "row + 2"] show ?thesis
      by (simp add: Inv_def)
  next
    case True
    obtain st1 stop1 where v: "visit ctx input compareFn n row col st = (st1, stop1)"
      by (metis surj_pair)
    from visit_inv[OF 1(2) 1(3) 1(4) True v]
    have sc: "scanned n (calls st1)" and i1: "stop1 = None \<longrightarrow> Inv n st1 row (col + 1)"
      by simp_all
    show ?thesis
    proof (cases stop1)
      case None
      with True v 1(5) have r: "colLoop ctx input compareFn n row (col + 1) st1 = (st', stop)"
        by (simp add: colLoop.simps[of ctx input compareFn n row col st])
      from None v have v': "(st1, None) = visit ctx input compareFn n row col st" by simp
      show ?thesis
        using 1(1)[OF True v' refl _ _ _ r] i1 None 1(3,4) by simp
    next
      case (Some x)
      with True v 1(5) have "st' = st1" "stop = Some x"
        by (simp_all add: colLoop.simps[of ctx input compareFn n row col st])
      with sc show ?thesis by simp
    qed
  qed
qed

lemma rowLoop_inv:
  assumes "Inv n st row (row + 1)" "0 \<le> row"
    and "rowLoop ctx input compareFn n row st = (st', stop)"
  shows "scanned n (calls st')
       \<and> (stop = None \<longrightarrow> duplicates st' = List.map_filter decided (calls st'))"
  using assms
proof (induction ctx input compareFn n row st rule: rowLoop.induct)
  case (1 ctx input compareFn n row st)
  show ?case
  proof (cases "row < n - 1")
    case False
    with 1(4) have "st' = st" "stop = None"
      by (simp_all add: rowLoop.simps[of ctx input compareFn n row st])
    with 1(2) show ?thesis
      by (simp add: Inv_def)
  next
    case True
    obtain st1 stop1 where c: "colLoop ctx input compareFn n row (row + 1) st = (st1, stop1)"
      by (metis surj_pair)
    from colLoop_inv[OF 1(2) 1(3) _ c]
    have sc: "scanned n (calls st1)" and i1: "stop1 = None \<longrightarrow> Inv n st1 (row + 1) (row + 2)"
      by simp_all
    show ?thesis
    proof (cases stop1)
      case None
      with True c 1(4) have r: "rowLoop ctx input compareFn n (row + 1) st1 = (st', stop)"
        by (simp add: rowLoop.simps[of ctx input compareFn n row st])
      from None c have c': "(st1, None) = colLoop ctx input compareFn n row (row + 1) st" by simp
      have "Inv n st1 (row + 1) (row + 1 + 1)" using i1 None by (simp add: add.assoc)
      from 1(1)[OF True c' refl this _ r] 1(3) show ?thesis by simp
    next
      case (Some x)
      with True c 1(4) have "st' = st1" "stop = Some x"
        by (simp_all add: rowLoop.simps[of ctx input compareFn n row st])
      with sc show ?thesis by simp
    qed
  qed
qed

lemma IndexesContext_scanned:
  assumes "IndexesContext ctx input compareFn w = (st, stop)"
  shows "scanned (int (length input)) (calls st)
       \<and> (stop = None \<longrightarrow> duplicates st = List.map_filter decided (calls st))"
proof -
  define n where "n = int (length input)"
  define size where "size = quo64 (sub64 (mul64 n n) n) 2"
  define st0 :: "('a, 'b) pass" where
    "st0 = \<lparr>skipMatrix = replicate (nat size) False, duplicates = [], calls = [],
            skipped = [], sink = [], world = w\<rparr>"
  have i0: "Inv n st0 0 (0 + 1)"
    by (simp add: Inv_def st0_def scanned_def map_filter_def)
  show ?thesis
  proof (cases "size < 0")
    case True
    with assms have "st = st0"
      by (simp add: IndexesContext_def Let_def n_def size_def st0_def)
    then show ?thesis
      using True assms
      by (auto simp: IndexesContext_def Let_def n_def size_def st0_def scanned_def)
  next
    case False
    with assms have "rowLoop ctx input compareFn n 0 st0 = (st, stop)"
      by (simp add: IndexesContext_def Let_def n_def size_def st0_def)
    from rowLoop_inv[OF i0 _ this] show ?thesis by (simp add: n_def)
  qed
qed


subsection \<open>A call-counting stub comparator\<close>

text \<open>
  Three candidates with the same content, where the first comparison fails (a read
  error) and the other two find the right-hand file \<open>c\<close> to be the duplicate. The world
  counts the calls.
\<close>

definition third_is_copy :: "(unit, string, nat) CompareFuncContext" where
  "third_is_copy ctx left right w =
     (if right = ''c'' then (Inr (Right, None), Suc w)
      else (Inr (None_selection, Some (errorString ''read failed'')), Suc w))"

lemma third_is_copy_run:
  "IndexesContext () [''a'', ''b'', ''c''] third_is_copy 0 =
     (\<lparr>skipMatrix = [False, False, False], duplicates = [2, 2],
       calls = [(0, 1, Inr (None_selection, Some (errorString ''read failed''))),
                (0, 2, Inr (Right, None)), (1, 2, Inr (Right, None))],
       skipped = [],
       sink = [Rec LevelError ''comparison failure'' ''a'' ''b'' (Some (''err'', ''read failed'')),
               Rec LevelInfo ''comparison'' ''a'' ''c'' (Some (''duplicate'', ''Right'')),
               Rec LevelInfo ''comparison'' ''b'' ''c'' (Some (''duplicate'', ''Right''))],
       world = 3\<rparr>, None)"
  by code_simp

subsection \<open>Inputs of length 0 or 1\<close>

lemma size_small: "quo64 (sub64 (mul64 0 0) 0) 2 = 0" "quo64 (sub64 (mul64 1 1) 1) 2 = 0"
  by (simp_all add: quo64_def sub64_def mul64_def i64_def)

text \<open>
  Claim C10. For every input list of length 0 or 1 and every compare function,
  \<open>IndexesContext\<close> calls the compare function zero times and returns the empty list
  of duplicate indices.
\<close>

theorem IndexesContext_short_input:
  assumes "length input \<le> 1"
  shows "calls (fst (IndexesContext ctx input compareFn w)) = []
       \<and> returned (IndexesContext ctx input compareFn w) = Some []"
proof -
  define n where "n = int (length input)"
  from assms have "length input = 0 \<or> length input = 1" by linarith
  then have n: "n = 0 \<or> n = 1" unfolding n_def by auto
  then have sz: "quo64 (sub64 (mul64 n n) n) 2 = 0"
    using size_small by blast
  from n have r: "\<not> 0 < n - 1" by linarith
  have loop: "rowLoop ctx input compareFn n 0 st = (st, None)" for st :: "('a, 'b) pass"
    using r by (subst rowLoop.simps) simp
  show ?thesis
    unfolding IndexesContext_def Let_def n_def[symmetric] sz loop
    by (simp add: returned_def)
qed

theorem IndexesContext_short_input_witness:
  "length [''only''] \<le> 1
     \<and> calls (fst (IndexesContext () [''only''] third_is_copy 0)) = []
     \<and> returned (IndexesContext () [''only''] third_is_copy 0) = Some []"
  using IndexesContext_short_input[of "[''only'']" "()" third_is_copy 0] by simp

subsection \<open>Which comparisons a decision spares\<close>

text \<open>
  Claim C2, as amended. For every candidate list and every compare function: once a call
  at \<open>(row, col)\<close> has placed \<open>row\<close> in the result by a \<open>Left\<close> outcome, no later call of
  the pass is given a pair that contains \<open>row\<close>; once it has placed \<open>col\<close> by a \<open>Right\<close>
  outcome, no later call is given a pair whose row (left) element is \<open>col\<close>. This holds
  for the calls of a pass that panics or overflows as well.
\<close>

theorem skip_after_decision:
  assumes "IndexesContext ctx input compareFn w = (st, stop)"
    and "k < k'" and "k' < length (calls st)"
    and "calls st ! k = (row, col, Inr (dup, None))"
    and "calls st ! k' = (row', col', res')"
  shows "(dup = Left \<longrightarrow> row' \<noteq> row \<and> col' \<noteq> row) \<and> (dup = Right \<longrightarrow> row' \<noteq> col)"
proof -
  from IndexesContext_scanned[OF assms(1)] have "sorted_wrt spares (calls st)"
    by (simp add: scanned_def)
  with assms(2,3) have "spares (calls st ! k) (calls st ! k')"
    by (simp add: sorted_wrt_iff_nth_less)
  then show ?thesis
    by (simp add: assms(4,5) spares_def)
qed

theorem skip_after_decision_witness:
  "calls (fst (IndexesContext () [''a'', ''b'', ''c''] third_is_copy 0)) ! 1
     = (0, 2, Inr (Right, None))
   \<and> calls (fst (IndexesContext () [''a'', ''b'', ''c''] third_is_copy 0)) ! 2
     = (1, 2, Inr (Right, None))
   \<and> (1::int) \<noteq> 2"
proof -
  define st where "st = fst (IndexesContext () [''a'', ''b'', ''c''] third_is_copy 0)"
  have run: "IndexesContext () [''a'', ''b'', ''c''] third_is_copy 0 = (st, None)"
    by (simp add: st_def third_is_copy_run)
  have cs: "calls st = [(0, 1, Inr (None_selection, Some (errorString ''read failed''))),
                (0, 2, Inr (Right, None)), (1, 2, Inr (Right, None))]"
    by (simp add: st_def third_is_copy_run)
  have k1: "calls st ! 1 = (0, 2, Inr (Right, None))"
    and k2: "calls st ! 2 = (1, 2, Inr (Right, None))"
    and len: "2 < length (calls st)"
    by (simp_all add: cs)
  have "(Right = Left \<longrightarrow> (1::int) \<noteq> 0 \<and> (2::int) \<noteq> 0) \<and> (Right = Right \<longrightarrow> (1::int) \<noteq> 2)"
    using run _ len k1 k2 by (rule skip_after_decision) simp
  with k1 k2 show ?thesis by (simp add: st_def)
qed

text \<open>
  Claim C2 as stated fails for an index decided in the right-hand role: in the pass
  below the second call, at \<open>(0, 2)\<close>, places index 2 by a \<open>Right\<close> outcome, and the third
  call is still issued for the pair \<open>(1, 2)\<close>, which contains index 2 in that same role.
\<close>

theorem right_decided_compared_again_counterexample:
  "calls (fst (IndexesContext () [''a'', ''b'', ''c''] third_is_copy 0)) =
     [(0, 1, Inr (None_selection, Some (errorString ''read failed''))),
      (0, 2, Inr (Right, None)), (1, 2, Inr (Right, None))]"
  by (simp add: third_is_copy_run)


subsection \<open>Only decided rows are passed over\<close>

text \<open>
  The other direction needs the slots to be distinct, hence a candidate list whose
  squared length fits \<open>int\<close>: every marked slot is the slot of a pair \<open>(i, c)\<close> with \<open>i\<close>
  placed in the result, so a pair that is passed over has a row that was placed before.
\<close>

definition justified :: "int \<Rightarrow> call list \<Rightarrow> nat \<Rightarrow> bool" where
  "justified n cs j \<longleftrightarrow>
     (\<exists>k \<in> set cs. \<exists>i c. decided k = Some i \<and> 0 \<le> i \<and> i < c \<and> c < n
        \<and> j = nat (Offset n i c))"

definition SM :: "int \<Rightarrow> ('a, 'w) pass \<Rightarrow> bool" where
  "SM n st \<longleftrightarrow> (\<forall>j < length (skipMatrix st). skipMatrix st ! j \<longrightarrow> justified n (calls st) j)"

definition SK :: "('a, 'w) pass \<Rightarrow> bool" where
  "SK st \<longleftrightarrow> (\<forall>p \<in> set (skipped st). \<exists>k \<in> set (calls st). decided k = Some (fst p))"

lemma justified_mono: "justified n cs j \<Longrightarrow> set cs \<subseteq> set cs' \<Longrightarrow> justified n cs' j"
  unfolding justified_def by blast

lemma mark_new:
  "mark n r c sm = Inr sm' \<Longrightarrow> j < length sm' \<Longrightarrow> sm' ! j \<Longrightarrow>
   sm ! j \<or> (\<exists>c'. c \<le> c' \<and> c' < n \<and> j = nat (Offset n r c'))"
proof (induction n r c sm rule: mark.induct)
  case (1 n r c sm)
  show ?case
  proof (cases "c < n")
    case False
    with 1(2,4) show ?thesis by (simp add: mark.simps[of n r c sm])
  next
    case True
    define i where "i = Offset n r c"
    from True 1(2) have rng: "0 \<le> i" "i < int (length sm)"
      and rec: "mark n r (c + 1) (sm[nat i := True]) = Inr sm'"
      by (auto simp: mark.simps[of n r c sm] i_def Let_def split: if_splits)
    from 1(1)[OF True i_def[symmetric, THEN sym] _ rec 1(3,4)] rng
    have "sm[nat i := True] ! j \<or> (\<exists>c'. c + 1 \<le> c' \<and> c' < n \<and> j = nat (Offset n r c'))"
      by (auto simp: i_def)
    then show ?thesis
    proof
      assume "sm[nat i := True] ! j"
      then have "sm ! j \<or> j = nat i"
        by (cases "j = nat i") simp_all
      with True show ?thesis unfolding i_def by auto
    next
      assume "\<exists>c'. c + 1 \<le> c' \<and> c' < n \<and> j = nat (Offset n r c')"
      then show ?thesis by force
    qed
  qed
qed

lemma marked_slot_row:
  assumes n: "n * n < 9223372036854775808" and pos: "0 \<le> row" "row < col" "col < n"
    and rng: "0 \<le> Offset n row col"
    and j: "justified n cs (nat (Offset n row col))"
  shows "\<exists>k \<in> set cs. decided k = Some row"
proof -
  from j obtain k i c where k: "k \<in> set cs" "decided k = Some i"
    and ic: "0 \<le> i" "i < c" "c < n" and eq: "nat (Offset n row col) = nat (Offset n i c)"
    unfolding justified_def by blast
  have n2: "2 \<le> n" using pos by linarith
  have e1: "Offset n row col = spec_slot n row col" using n2 n pos by (rule Offset_exact)
  have e2: "Offset n i c = spec_slot n i c" using n2 n ic by (rule Offset_exact)
  have "0 \<le> spec_slot n i c" using ic by (rule slot_nonneg)
  with eq rng e1 e2 have "spec_slot n row col = spec_slot n i c" by simp
  with slot_inj[of row col n i c] pos ic have "row = i" by simp
  with k show ?thesis by blast
qed

lemma visit_call_skipped:
  assumes "\<not> (Offset n row col < 0 \<or> int (length (skipMatrix st)) \<le> Offset n row col)"
    and "\<not> skipMatrix st ! nat (Offset n row col)"
    and "compareFn ctx (input ! nat row) (input ! nat col) (world st) = (res, w)"
    and "visit ctx input compareFn n row col st = (st', stop)"
  shows "skipped st' = skipped st"
proof -
  note ev = assms(4)[unfolded visit_def Let_def, simplified assms(1-3) if_False prod.case]
  show ?thesis
  proof (cases res)
    case (Inl p)
    with ev show ?thesis by auto
  next
    case (Inr a)
    obtain dup err where a: "a = (dup, err)" by (cases a)
    show ?thesis
    proof (cases err)
      case (Some e)
      with ev Inr a show ?thesis by (auto split: option.splits)
    next
      case None
      with ev Inr a show ?thesis by (auto split: sum.splits if_splits)
    qed
  qed
qed

lemma visit_sound:
  assumes n: "n * n < 9223372036854775808" and pos: "0 \<le> row" "row < col" "col < n"
    and sm: "SM n st" and sk: "SK st"
    and v: "visit ctx input compareFn n row col st = (st', stop)"
  shows "SK st' \<and> (stop = None \<longrightarrow> SM n st')"
proof (cases "Offset n row col < 0 \<or> int (length (skipMatrix st)) \<le> Offset n row col")
  case True
  from visit_out_of_range[OF True, of ctx input compareFn] v sk show ?thesis by simp
next
  case rng: False
  show ?thesis
  proof (cases "skipMatrix st ! nat (Offset n row col)")
    case True
    from visit_skip[OF rng True, of ctx input compareFn] v
    have eq: "calls st' = calls st" "skipMatrix st' = skipMatrix st"
      "skipped st' = skipped st @ [(row, col)]"
      by auto
    from rng have "nat (Offset n row col) < length (skipMatrix st)" by linarith
    with sm True have "justified n (calls st) (nat (Offset n row col))"
      by (simp add: SM_def)
    with n pos rng have "\<exists>k \<in> set (calls st). decided k = Some row"
      by (intro marked_slot_row) auto
    with sk sm eq show ?thesis by (auto simp: SK_def SM_def)
  next
    case unset: False
    obtain res w where cmp:
      "compareFn ctx (input ! nat row) (input ! nat col) (world st) = (res, w)"
      by (metis surj_pair)
    note vc = visit_call[OF rng unset cmp v]
    have sub: "set (calls st) \<subseteq> set (calls st')" using vc(1) by auto
    have skp: "skipped st' = skipped st"
      using rng unset cmp v by (rule visit_call_skipped)
    have "SK st'" using sk sub unfolding SK_def skp by blast
    moreover have "SM n st'" if stop: "stop = None"
    proof -
      consider (l) "res = Inr (Left, None)" | (r) "res = Inr (Right, None)"
        | (o) "res \<noteq> Inr (Left, None)" "res \<noteq> Inr (Right, None)"
        by blast
      then show ?thesis
      proof cases
        case o
        with vc(2)[OF stop] have "skipMatrix st' = skipMatrix st" by simp
        with sm sub show ?thesis
          unfolding SM_def by (auto intro: justified_mono)
      next
        case l
        with vc(3)[OF stop]
        have mk: "mark n row (col + 1) (skipMatrix st) = Inr (skipMatrix st')" by simp
        have d: "decided (row, col, res) = Some row" using l by (simp add: decided_def)
        have len: "length (skipMatrix st') = length (skipMatrix st)"
          using mark_Inr[OF mk] by (simp add: grows_def)
        have "justified n (calls st') j" if j: "j < length (skipMatrix st')" "skipMatrix st' ! j" for j
        proof -
          from mark_new[OF mk j] show ?thesis
          proof
            assume "skipMatrix st ! j"
            with sm j(1) len have "justified n (calls st) j" by (simp add: SM_def)
            then show ?thesis using sub by (rule justified_mono)
          next
            assume "\<exists>c'. col + 1 \<le> c' \<and> c' < n \<and> j = nat (Offset n row c')"
            then obtain c' where "col + 1 \<le> c'" "c' < n" "j = nat (Offset n row c')" by blast
            with pos d vc(1) show ?thesis
              unfolding justified_def
              by (intro bexI[of _ "(row, col, res)"] exI[of _ row] exI[of _ c']) auto
          qed
        qed
        then show ?thesis by (simp add: SM_def)
      next
        case r
        with vc(4)[OF stop]
        have mk: "mark n col (col + 1) (skipMatrix st) = Inr (skipMatrix st')" by simp
        have d: "decided (row, col, res) = Some col"
          using r by (simp add: decided_def Left_def Right_def)
        have len: "length (skipMatrix st') = length (skipMatrix st)"
          using mark_Inr[OF mk] by (simp add: grows_def)
        have "justified n (calls st') j" if j: "j < length (skipMatrix st')" "skipMatrix st' ! j" for j
        proof -
          from mark_new[OF mk j] show ?thesis
          proof
            assume "skipMatrix st ! j"
            with sm j(1) len have "justified n (calls st) j" by (simp add: SM_def)
            then show ?thesis using sub by (rule justified_mono)
          next
            assume "\<exists>c'. col + 1 \<le> c' \<and> c' < n \<and> j = nat (Offset n col c')"
            then obtain c' where "col + 1 \<le> c'" "c' < n" "j = nat (Offset n col c')" by blast
            with pos d vc(1) show ?thesis
              unfolding justified_def
              by (intro bexI[of _ "(row, col, res)"] exI[of _ col] exI[of _ c']) auto
          qed
        qed
        then show ?thesis by (simp add: SM_def)
      qed
    qed
    ultimately show ?thesis by simp
  qed
qed

lemma colLoop_sound:
  assumes "n * n < 9223372036854775808" "0 \<le> row" "row < col" "SM n st" "SK st"
    and "colLoop ctx input compareFn n row col st = (st', stop)"
  shows "SK st' \<and> (stop = None \<longrightarrow> SM n st')"
  using assms
proof (induction ctx input compareFn n row col st rule: colLoop.induct)
  case (1 ctx input compareFn n row col st)
  show ?case
  proof (cases "col < n")
    case False
    with 1(7) have "st' = st" "stop = None"
      by (simp_all add: colLoop.simps[of ctx input compareFn n row col st])
    with 1(5,6) show ?thesis by simp
  next
    case True
    obtain st1 stop1 where v: "visit ctx input compareFn n row col st = (st1, stop1)"
      by (metis surj_pair)
    from visit_sound[OF 1(2) 1(3) 1(4) True 1(5) 1(6) v]
    have sk1: "SK st1" and sm1: "stop1 = None \<longrightarrow> SM n st1" by simp_all
    show ?thesis
    proof (cases stop1)
      case None
      with True v 1(7) have r: "colLoop ctx input compareFn n row (col + 1) st1 = (st', stop)"
        by (simp add: colLoop.simps[of ctx input compareFn n row col st])
      from None v have v': "(st1, None) = visit ctx input compareFn n row col st" by simp
      show ?thesis
        using 1(1)[OF True v' refl 1(2) 1(3) _ _ sk1 r] sm1 None 1(4) by simp
    next
      case (Some x)
      with True v 1(7) have "st' = st1" "stop = Some x"
        by (simp_all add: colLoop.simps[of ctx input compareFn n row col st])
      with sk1 show ?thesis by simp
    qed
  qed
qed

lemma rowLoop_sound:
  assumes "n * n < 9223372036854775808" "0 \<le> row" "SM n st" "SK st"
    and "rowLoop ctx input compareFn n row st = (st', stop)"
  shows "SK st'"
  using assms
proof (induction ctx input compareFn n row st rule: rowLoop.induct)
  case (1 ctx input compareFn n row st)
  show ?case
  proof (cases "row < n - 1")
    case False
    with 1(6) have "st' = st"
      by (simp add: rowLoop.simps[of ctx input compareFn n row st])
    with 1(5) show ?thesis by simp
  next
    case True
    obtain st1 stop1 where c: "colLoop ctx input compareFn n row (row + 1) st = (st1, stop1)"
      by (metis surj_pair)
    from colLoop_sound[OF 1(2) 1(3) _ 1(4) 1(5) c]
    have sk1: "SK st1" and sm1: "stop1 = None \<longrightarrow> SM n st1" by simp_all
    show ?thesis
    proof (cases stop1)
      case None
      with True c 1(6) have r: "rowLoop ctx input compareFn n (row + 1) st1 = (st', stop)"
        by (simp add: rowLoop.simps[of ctx input compareFn n row st])
      from None c have c': "(st1, None) = colLoop ctx input compareFn n row (row + 1) st" by simp
      from 1(1)[OF True c' refl 1(2) _ _ sk1 r] sm1 None 1(3) show ?thesis by simp
    next
      case (Some x)
      with True c 1(6) have "st' = st1"
        by (simp add: rowLoop.simps[of ctx input compareFn n row st])
      with sk1 show ?thesis by simp
    qed
  qed
qed

lemma skipped_only_after_decision:
  assumes "IndexesContext ctx input compareFn w = (st, stop)"
    and "int (length input) * int (length input) < 9223372036854775808"
    and "(row, col) \<in> set (skipped st)"
  shows "\<exists>k \<in> set (calls st). decided k = Some row"
proof -
  define n where "n = int (length input)"
  define size where "size = quo64 (sub64 (mul64 n n) n) 2"
  define st0 :: "('a, 'b) pass" where
    "st0 = \<lparr>skipMatrix = replicate (nat size) False, duplicates = [], calls = [],
            skipped = [], sink = [], world = w\<rparr>"
  have s0: "SM n st0" "SK st0" by (simp_all add: SM_def SK_def st0_def)
  have "SK st"
  proof (cases "size < 0")
    case True
    with assms(1) have "st = st0"
      by (simp add: IndexesContext_def Let_def n_def size_def st0_def)
    with s0 show ?thesis by simp
  next
    case False
    with assms(1) have "rowLoop ctx input compareFn n 0 st0 = (st, stop)"
      by (simp add: IndexesContext_def Let_def n_def size_def st0_def)
    from rowLoop_sound[OF _ _ s0 this] assms(2) show ?thesis by (simp add: n_def)
  qed
  with assms(3) show ?thesis by (force simp: SK_def)
qed

section \<open>The content comparator\<close>

subsection \<open>Buffered readers\<close>

text \<open>
  \<open>equalFile\<close> reads each file through a \<open>bufio.Reader\<close>. A reader is modelled by the
  bytes it has not delivered yet, by what it reports once they are exhausted (\<open>io.EOF\<close>,
  or the read error of the file) and by the sizes of the chunks the buffer happens to
  hand out: \<open>Read(p)\<close> delivers at least one and at most \<open>len(p)\<close> of the pending bytes
  with a nil error, and \<open>0\<close> bytes with the error at the end, as \<open>bufio.Reader.Read\<close> does
  over an \<open>os.File\<close>. \<open>io.ReadFull\<close> is \<open>io.ReadAtLeast\<close> with \<open>min = len(buf)\<close>.
\<close>

type_synonym byte = "8 word"

datatype ioerr = EOF | ErrUnexpectedEOF | ReadError string

record Reader =
  pending :: "byte list"
  failure :: "ioerr option"
  grants :: "nat list"

definition Read :: "nat \<Rightarrow> Reader \<Rightarrow> (byte list \<times> ioerr option) \<times> Reader" where
  "Read k r =
     (if pending r = [] then
        (([], Some (case failure r of None \<Rightarrow> EOF | Some e \<Rightarrow> e)), r)
      else
        (let g = (case grants r of [] \<Rightarrow> k | g # gs \<Rightarrow> g);
             m = max 1 (min k g)
         in ((take m (pending r), None),
             r\<lparr>pending := drop m (pending r), grants := tl (grants r)\<rparr>)))"

function ReadAtLeast ::
  "nat \<Rightarrow> byte list \<Rightarrow> Reader \<Rightarrow> (byte list \<times> ioerr option) \<times> Reader" where
  "ReadAtLeast need buf r =
     (if length buf < need then
        (case Read (need - length buf) r of
           ((bs, None), r') \<Rightarrow> ReadAtLeast need (buf @ bs) r'
         | ((bs, Some err), r') \<Rightarrow>
             ((buf @ bs,
               if length (buf @ bs) \<ge> need then None
               else if length (buf @ bs) > 0 \<and> err = EOF then Some ErrUnexpectedEOF
               else Some err), r'))
      else ((buf, None), r))"
  by pat_completeness auto
termination
proof (relation "measure (\<lambda>(need, buf, r). need - length buf)", goal_cases)
  case 1
  show ?case by simp
next
  case (2 need buf r x1 r' bs x2)
  then have "bs \<noteq> []"
    by (auto simp: Read_def Let_def split: if_splits)
  with 2(1) show ?case
    by (cases bs) auto
qed

definition ReadFull :: "nat \<Rightarrow> Reader \<Rightarrow> (byte list \<times> ioerr option) \<times> Reader" where
  "ReadFull n r = ReadAtLeast n [] r"


subsection \<open>\<open>equalFile\<close>\<close>

text \<open>
  The context is modelled by the number of polls of \<open>ctx.Done()\<close> that still find it
  open (\<open>None\<close>: it is never cancelled). The result carries the two readers as the
  comparison leaves them, which shows how far each file was read.
\<close>

datatype cmperr =
    Canceled
  | SizeMismatch "ioerr option" "ioerr option"
  | ReaderErrors nat nat "ioerr option" "ioerr option"

function equalFile ::
  "nat option \<Rightarrow> Reader \<Rightarrow> Reader \<Rightarrow> (bool \<times> cmperr option) \<times> Reader \<times> Reader" where
  "equalFile ctx br1 br2 =
     (if ctx = Some 0 then ((False, Some Canceled), br1, br2)
      else
        (case Read 4096 br1 of
           ((b1, err1), br1') \<Rightarrow>
             (case ReadFull (length b1) br2 of
                ((b2, err2), br2') \<Rightarrow>
                  if length b1 \<noteq> length b2 then
                    ((False, Some (SizeMismatch err1 err2)), br1', br2')
                  else if b1 \<noteq> b2 then ((False, None), br1', br2')
                  else if err1 = Some EOF \<and> length b1 = 0 \<and> length b2 = 0 \<and> err2 = None then
                    ((True, None), br1', br2')
                  else if err1 = Some EOF \<and> err2 = Some EOF then ((True, None), br1', br2')
                  else if err1 \<noteq> None \<or> err2 \<noteq> None then
                    ((False, Some (ReaderErrors (length b1) (length b2) err1 err2)), br1', br2')
                  else equalFile (map_option (\<lambda>k. k - 1) ctx) br1' br2')))"
  by pat_completeness auto
termination
proof (relation "measure (\<lambda>(ctx, br1, br2). length (pending br1))", goal_cases)
  case 1
  show ?case by simp
next
  case 2
  then show ?case
    by (auto simp: Read_def Let_def split: if_splits)
qed

declare ReadAtLeast.simps [simp del] equalFile.simps [simp del]

text \<open>The position of the first byte in which two contents differ.\<close>

fun mismatch :: "'a list \<Rightarrow> 'a list \<Rightarrow> nat" where
  "mismatch [] ys = 0"
| "mismatch (x # xs) [] = 0"
| "mismatch (x # xs) (y # ys) = (if x = y then Suc (mismatch xs ys) else 0)"


definition consumed :: "Reader \<Rightarrow> Reader \<Rightarrow> nat" where
  "consumed r r' = length (pending r) - length (pending r')"

subsection \<open>Error-free streams of equal length\<close>

lemma Read_end:
  "pending r = [] \<Longrightarrow>
   Read k r = (([], Some (case failure r of None \<Rightarrow> EOF | Some e \<Rightarrow> e)), r)"
  by (simp add: Read_def)

lemma Read_data:
  assumes "pending r \<noteq> []" "0 < k"
  obtains m r' where "Read k r = ((take m (pending r), None), r')"
    "1 \<le> m" "m \<le> k" "pending r' = drop m (pending r)" "failure r' = failure r"
proof -
  define g where "g = (case grants r of [] \<Rightarrow> k | g # gs \<Rightarrow> g)"
  define m where "m = max 1 (min k g)"
  have "Read k r = ((take m (pending r), None),
      r\<lparr>pending := drop m (pending r), grants := tl (grants r)\<rparr>)"
    using assms(1) by (simp add: Read_def Let_def g_def m_def)
  moreover have "1 \<le> m" "m \<le> k" using assms(2) by (auto simp: m_def)
  ultimately show ?thesis
    by (intro that[of m "r\<lparr>pending := drop m (pending r), grants := tl (grants r)\<rparr>"]) auto
qed

lemma ReadAtLeast_enough:
  assumes "need \<le> length buf + length (pending r)"
  shows "\<exists>r'. ReadAtLeast need buf r = ((buf @ take (need - length buf) (pending r), None), r')
            \<and> pending r' = drop (need - length buf) (pending r) \<and> failure r' = failure r"
  using assms
proof (induction need buf r rule: ReadAtLeast.induct)
  case (1 need buf r)
  show ?case
  proof (cases "length buf < need")
    case False
    then show ?thesis
      by (simp add: ReadAtLeast.simps[of need buf r])
  next
    case True
    with 1(2) have ne: "pending r \<noteq> []" by auto
    from True have pos: "0 < need - length buf" by simp
    from Read_data[OF ne pos] obtain m r1 where
      rd: "Read (need - length buf) r = ((take m (pending r), None), r1)"
      and m: "1 \<le> m" "m \<le> need - length buf"
      and r1: "pending r1 = drop m (pending r)" "failure r1 = failure r"
      by metis
    have lm: "length (take m (pending r)) = m" using m 1(2) by simp
    have "need \<le> length (buf @ take m (pending r)) + length (pending r1)"
      using 1(2) m r1 by simp
    from 1(1)[OF True rd[symmetric] refl refl this] obtain r' where
      ih: "ReadAtLeast need (buf @ take m (pending r)) r1 =
            (((buf @ take m (pending r)) @ take (need - length (buf @ take m (pending r))) (pending r1),
              None), r')"
        "pending r' = drop (need - length (buf @ take m (pending r))) (pending r1)"
        "failure r' = failure r1"
      by blast
    have e: "need - length buf = m + (need - length buf - m)" using m by simp
    have t: "take m (pending r) @ take (need - length buf - m) (drop m (pending r))
          = take (need - length buf) (pending r)"
      using take_add[of m "need - length buf - m" "pending r"] m by simp
    have d: "drop (need - length buf - m) (drop m (pending r)) = drop (need - length buf) (pending r)"
      using m by simp
    have "ReadAtLeast need buf r = ReadAtLeast need (buf @ take m (pending r)) r1"
      using True rd by (simp add: ReadAtLeast.simps[of need buf r])
    with ih r1 lm t d show ?thesis
      by (simp add: diff_diff_left)
  qed
qed

lemma ReadFull_enough:
  assumes "n \<le> length (pending r)"
  obtains r' where "ReadFull n r = ((take n (pending r), None), r')"
    "pending r' = drop n (pending r)" "failure r' = failure r"
  using ReadAtLeast_enough[of n "[]" r] assms by (auto simp: ReadFull_def)


lemma ReadFull_zero: "ReadFull 0 r = (([], None), r)"
  by (simp add: ReadFull_def ReadAtLeast.simps[of 0 "[]" r])

lemma mismatch_less:
  "take m xs \<noteq> take m ys \<Longrightarrow> length xs = length ys \<Longrightarrow> mismatch xs ys < m"
proof (induction xs ys arbitrary: m rule: mismatch.induct)
  case (1 ys)
  then show ?case by simp
next
  case (2 x xs)
  then show ?case by simp
next
  case (3 x xs y ys)
  then show ?case by (cases m) (auto split: if_splits)
qed

lemma mismatch_drop:
  "take m xs = take m ys \<Longrightarrow> m \<le> length xs \<Longrightarrow> m \<le> length ys \<Longrightarrow>
   mismatch xs ys = m + mismatch (drop m xs) (drop m ys)"
proof (induction xs ys arbitrary: m rule: mismatch.induct)
  case (1 ys)
  then show ?case by simp
next
  case (2 x xs)
  then show ?case by simp
next
  case (3 x xs y ys)
  then show ?case by (cases m) auto
qed

lemma equalFile_clean:
  assumes "failure br1 = None" "failure br2 = None"
    and "length (pending br1) = length (pending br2)"
  shows "\<exists>br1' br2' c.
           equalFile None br1 br2 = ((pending br1 = pending br2, None), br1', br2')
         \<and> pending br1' = drop c (pending br1) \<and> pending br2' = drop c (pending br2)
         \<and> c \<le> length (pending br1)
         \<and> (if pending br1 = pending br2 then c = length (pending br1)
             else mismatch (pending br1) (pending br2) < c
                \<and> c \<le> mismatch (pending br1) (pending br2) + 4096)"
  using assms
proof (induction "length (pending br1)" arbitrary: br1 br2 rule: less_induct)
  case less
  let ?p1 = "pending br1" and ?p2 = "pending br2"
  show ?case
  proof (cases "?p1 = []")
    case True
    with less(4) have p2: "?p2 = []" by simp
    have "equalFile None br1 br2 = ((True, None), br1, br2)"
      using True less(2) by (simp add: equalFile.simps[of None br1 br2] Read_end ReadFull_zero)
    with True p2 show ?thesis by simp
  next
    case False
    from Read_data[OF False, of 4096] obtain m r1 where
      rd: "Read 4096 br1 = ((take m ?p1, None), r1)"
      and m: "1 \<le> m" "m \<le> 4096"
      and r1: "pending r1 = drop m ?p1" "failure r1 = failure br1"
      by (metis zero_less_numeral)
    define k where "k = length (take m ?p1)"
    have k: "1 \<le> k" "k \<le> 4096" "k \<le> length ?p1" "k \<le> length ?p2"
      and tk: "take m ?p1 = take k ?p1" and dk: "drop m ?p1 = drop k ?p1"
      using m False less(4) by (auto simp: k_def min_def Suc_le_eq)
    from ReadFull_enough[OF k(4)] obtain r2 where
      rf: "ReadFull k br2 = ((take k ?p2, None), r2)"
      and r2: "pending r2 = drop k ?p2" "failure r2 = failure br2"
      by metis
    have lk: "length (take k ?p1) = k" "length (take k ?p2) = k" using k by simp_all
    show ?thesis
    proof (cases "take k ?p1 = take k ?p2")
      case diff: False
      then have ne: "?p1 \<noteq> ?p2" by auto
      have "equalFile None br1 br2 = ((False, None), r1, r2)"
        using diff rd rf lk
        by (simp add: equalFile.simps[of None br1 br2] tk k_def[symmetric])
      moreover have "mismatch ?p1 ?p2 < k" using diff less(4) by (rule mismatch_less)
      ultimately show ?thesis
        using ne r1 r2 dk k by (intro exI[of _ r1] exI[of _ r2] exI[of _ k]) simp
    next
      case same: True
      have step: "equalFile None br1 br2 = equalFile None r1 r2"
        using same rd rf lk
        by (simp add: equalFile.simps[of None br1 br2] tk k_def[symmetric])
      have "length (pending r1) < length ?p1" using r1 dk k False by simp
      moreover have "failure r1 = None" "failure r2 = None"
        "length (pending r1) = length (pending r2)"
        using r1 r2 less(2,3,4) dk by simp_all
      ultimately obtain br1' br2' c where
        ih: "equalFile None r1 r2 = ((pending r1 = pending r2, None), br1', br2')"
          "pending br1' = drop c (pending r1)" "pending br2' = drop c (pending r2)"
          "c \<le> length (pending r1)"
          "if pending r1 = pending r2 then c = length (pending r1)
           else mismatch (pending r1) (pending r2) < c
              \<and> c \<le> mismatch (pending r1) (pending r2) + 4096"
        using less(1)[of r1 r2] by blast
      have eqv: "(?p1 = ?p2) = (pending r1 = pending r2)"
        using same r1 r2 dk by (metis append_take_drop_id)
      have mm: "mismatch ?p1 ?p2 = k + mismatch (pending r1) (pending r2)"
        using mismatch_drop[OF same k(3,4)] r1 r2 dk by simp
      show ?thesis
        using step ih eqv mm r1 r2 dk k
        by (intro exI[of _ br1'] exI[of _ br2'] exI[of _ "k + c"])
           (auto simp: add.commute[of c k] split: if_splits)
    qed
  qed
qed


text \<open>
  Two files of three bytes that differ in the last byte only; the first reader hands out
  a chunk of two bytes and then the rest.
\<close>

definition photo :: Reader where
  "photo = \<lparr>pending = [1, 2, 3], failure = None, grants = [2]\<rparr>"

definition retouched :: Reader where
  "retouched = \<lparr>pending = [1, 2, 4], failure = None, grants = []\<rparr>"

lemma photo_retouched:
  "equalFile None photo retouched =
     ((False, None), \<lparr>pending = [], failure = None, grants = []\<rparr>,
                     \<lparr>pending = [], failure = None, grants = []\<rparr>)"
  by code_simp

text \<open>
  Claim C4. For two error-free streams (no read error, no cancellation) over byte
  contents of equal length, \<open>equalFile\<close> returns \<open>(true, nil)\<close> if and only if the contents
  are byte-identical and \<open>(false, nil)\<close> otherwise. On a mismatch it returns with the chunk
  that holds the first differing byte: every earlier chunk has been read and no later one
  (a chunk has at most 4096 bytes). In particular two empty files compare equal, and two
  files that differ in the last byte only compare not-equal after both have been read
  to the end.
\<close>

theorem equalFile_verdict:
  assumes "failure br1 = None" and "failure br2 = None"
    and "length (pending br1) = length (pending br2)"
    and "equalFile None br1 br2 = ((eq, err), br1', br2')"
  shows "err = None
       \<and> (eq \<longleftrightarrow> pending br1 = pending br2)
       \<and> consumed br1 br1' = consumed br2 br2'
       \<and> pending br1' = drop (consumed br1 br1') (pending br1)
       \<and> pending br2' = drop (consumed br2 br2') (pending br2)
       \<and> (pending br1 \<noteq> pending br2 \<longrightarrow>
            mismatch (pending br1) (pending br2) < consumed br1 br1'
          \<and> consumed br1 br1' \<le> mismatch (pending br1) (pending br2) + 4096)
       \<and> (pending br1 = [] \<longrightarrow> eq)
       \<and> (pending br1 \<noteq> pending br2
            \<and> mismatch (pending br1) (pending br2) = length (pending br1) - 1 \<longrightarrow>
            \<not> eq \<and> pending br1' = [] \<and> pending br2' = [])"
proof -
  from equalFile_clean[OF assms(1-3)] assms(4) obtain c where
    r: "eq = (pending br1 = pending br2)" "err = None"
    and p: "pending br1' = drop c (pending br1)" "pending br2' = drop c (pending br2)"
    and c: "c \<le> length (pending br1)"
    and m: "if pending br1 = pending br2 then c = length (pending br1)
            else mismatch (pending br1) (pending br2) < c
               \<and> c \<le> mismatch (pending br1) (pending br2) + 4096"
    by auto
  have c1: "consumed br1 br1' = c" and c2: "consumed br2 br2' = c"
    using p c assms(3) by (simp_all add: consumed_def)
  have e: "pending br1 = [] \<longrightarrow> eq" using r assms(3) by auto
  have l: "c = length (pending br1)"
    if "pending br1 \<noteq> pending br2"
      "mismatch (pending br1) (pending br2) = length (pending br1) - 1"
  proof -
    from that(1) assms(3) have "0 < length (pending br1)" by auto
    with that m c show ?thesis by (simp split: if_splits)
  qed
  show ?thesis
    unfolding c1 c2 using r p m e l assms(3) by (auto split: if_splits)
qed

theorem equalFile_verdict_witness:
  "failure photo = None \<and> failure retouched = None
   \<and> length (pending photo) = length (pending retouched)
   \<and> equalFile None photo retouched =
        ((False, None), \<lparr>pending = [], failure = None, grants = []\<rparr>,
                        \<lparr>pending = [], failure = None, grants = []\<rparr>)
   \<and> pending photo \<noteq> pending retouched
   \<and> mismatch (pending photo) (pending retouched) = 2
   \<and> consumed photo \<lparr>pending = [], failure = None, grants = []\<rparr> = 3"
proof -
  have h: "failure photo = None" "failure retouched = None"
    "length (pending photo) = length (pending retouched)"
    by (simp_all add: photo_def retouched_def)
  have mm: "mismatch (pending photo) (pending retouched) = 2"
    "pending photo \<noteq> pending retouched"
    by (simp_all add: photo_def retouched_def)
  from equalFile_verdict[OF h photo_retouched]
  have "mismatch (pending photo) (pending retouched)
          < consumed photo \<lparr>pending = [], failure = None, grants = []\<rparr>"
    and "pending \<lparr>pending = [], failure = None, grants = []\<rparr>
          = drop (consumed photo \<lparr>pending = [], failure = None, grants = []\<rparr>) (pending photo)"
    using mm by simp_all
  then have "consumed photo \<lparr>pending = [], failure = None, grants = []\<rparr> = 3"
    using mm by (simp add: consumed_def photo_def)
  with h mm photo_retouched show ?thesis by simp
qed


section \<open>The filename counter parser\<close>

subsection \<open>Library functions\<close>

text \<open>
  Strings are byte sequences. \<open>filepath.Ext\<close> scans from the end for the final dot in
  the final path element; what a path separator is depends on the target system.
  \<open>strings.HasSuffix\<close> and \<open>strings.TrimSuffix\<close> are as in the Go library.
\<close>

datatype goos = linux | windows

definition IsPathSeparator :: "goos \<Rightarrow> char \<Rightarrow> bool" where
  "IsPathSeparator g c =
     (case g of linux \<Rightarrow> c = CHR ''/'' | windows \<Rightarrow> c = CHR ''/'' \<or> c = CHR 0x5C)"

fun Ext_from :: "goos \<Rightarrow> string \<Rightarrow> nat \<Rightarrow> string" where
  "Ext_from g path 0 = []"
| "Ext_from g path (Suc i) =
     (if IsPathSeparator g (path ! i) then []
      else if path ! i = CHR ''.'' then drop i path
      else Ext_from g path i)"

definition Ext :: "goos \<Rightarrow> string \<Rightarrow> string" where
  "Ext g path = Ext_from g path (length path)"

definition HasSuffix :: "string \<Rightarrow> string \<Rightarrow> bool" where
  "HasSuffix s suffix \<longleftrightarrow>
     length suffix \<le> length s \<and> drop (length s - length suffix) s = suffix"

definition TrimSuffix :: "string \<Rightarrow> string \<Rightarrow> string" where
  "TrimSuffix s suffix = (if HasSuffix s suffix then take (length s - length suffix) s else s)"

text \<open>
  \<open>strconv.Atoi\<close>: an optional sign and decimal digits. On malformed text it returns
  \<open>0\<close> and a syntax error; on a value outside the 64-bit \<open>int\<close> it returns the nearest
  representable value (\<open>2^63 - 1\<close> or \<open>-2^63\<close>) and a range error.
\<close>

definition isDigit :: "char \<Rightarrow> bool" where
  "isDigit c \<longleftrightarrow> 48 \<le> (of_char c :: nat) \<and> (of_char c :: nat) \<le> 57"

definition digitsValue :: "string \<Rightarrow> int" where
  "digitsValue ds = foldl (\<lambda>v c. v * 10 + (of_char c - 48)) 0 ds"

datatype numError = ErrSyntax | ErrRange

definition Atoi :: "string \<Rightarrow> int \<times> numError option" where
  "Atoi s =
     (let neg = (s \<noteq> [] \<and> hd s = CHR ''-'');
          body = (if s \<noteq> [] \<and> (hd s = CHR ''-'' \<or> hd s = CHR ''+'') then tl s else s)
      in if body = [] \<or> \<not> list_all isDigit body then (0, Some ErrSyntax)
         else if \<not> neg \<and> 9223372036854775808 \<le> digitsValue body then
           (9223372036854775807, Some ErrRange)
         else if neg \<and> 9223372036854775808 < digitsValue body then
           (- 9223372036854775808, Some ErrRange)
         else (if neg then - digitsValue body else digitsValue body, None))"

subsection \<open>The two copy-suffix patterns\<close>

text \<open>
  \<^verbatim>\<open>var windowsPattern = regexp.MustCompile(` - Copy(?: \((\d+)\))?$`)
  var chromePattern = regexp.MustCompile(` \((\d+)\)$`)\<close>

  Both patterns are anchored at the end of the text, so a match is a suffix, and at most
  one suffix has the form; \<open>\d\<close> is an ASCII digit. \<open>FindStringSubmatch\<close> is modelled by
  functions that return the matched text and the text of the group (empty when the
  optional group took no part), or \<open>None\<close> for \<open>nil\<close>. \<open>parenNumber\<close> recognises a final
  \<open>" (digits)"\<close>.
\<close>

definition parenNumber :: "string \<Rightarrow> (string \<times> string) option" where
  "parenNumber s =
     (case rev s of
        [] \<Rightarrow> None
      | c # r \<Rightarrow>
          let ds = takeWhile isDigit r; r' = dropWhile isDigit r in
          if c = CHR '')'' \<and> ds \<noteq> [] \<and> take 2 r' = ''( ''
          then Some ('' ('' @ rev ds @ '')'', rev ds)
          else None)"

definition chromePattern :: "string \<Rightarrow> (string \<times> string) option" where
  "chromePattern s = parenNumber s"

definition windowsPattern :: "string \<Rightarrow> (string \<times> string) option" where
  "windowsPattern s =
     (case parenNumber s of
        Some (m, ds) \<Rightarrow>
          if HasSuffix (take (length s - length m) s) '' - Copy''
          then Some ('' - Copy'' @ m, ds) else None
      | None \<Rightarrow> if HasSuffix s '' - Copy'' then Some ('' - Copy'', []) else None)"

lemma HasSuffix_append: "HasSuffix (p @ m) m"
  by (simp add: HasSuffix_def)

lemma TrimSuffix_append: "TrimSuffix (p @ m) m = p"
  by (simp add: TrimSuffix_def HasSuffix_append)

lemma parenNumber_Some:
  assumes "parenNumber s = Some (m, ds)"
  shows "\<exists>p. s = p @ m \<and> m = '' ('' @ ds @ '')'' \<and> ds \<noteq> [] \<and> list_all isDigit ds"
proof (cases "rev s")
  case Nil
  with assms show ?thesis by (simp add: parenNumber_def)
next
  case (Cons c r)
  define dsr where "dsr = takeWhile isDigit r"
  define r' where "r' = dropWhile isDigit r"
  from assms Cons have cond: "c = CHR '')'' \<and> dsr \<noteq> [] \<and> take 2 r' = ''( ''"
    and res: "m = '' ('' @ rev dsr @ '')''" "ds = rev dsr"
    unfolding parenNumber_def Cons list.case Let_def dsr_def[symmetric] r'_def[symmetric]
    by (auto split: if_splits)
  from cond obtain r'' where dw: "r' = CHR ''('' # CHR '' '' # r''"
    by (cases r'; cases "tl r'") auto
  have "r = dsr @ r'" by (simp add: dsr_def r'_def)
  with Cons cond dw have "rev s = CHR '')'' # dsr @ CHR ''('' # CHR '' '' # r''"
    by simp
  then have "rev (rev s) = rev (CHR '')'' # dsr @ CHR ''('' # CHR '' '' # r'')"
    by (rule arg_cong)
  then have "s = rev r'' @ m" by (simp add: res)
  moreover have "list_all isDigit ds"
    unfolding res dsr_def by (simp add: list_all_iff) (metis set_takeWhileD)
  ultimately show ?thesis using res cond by auto
qed

lemma parenNumber_digits:
  assumes "ds \<noteq> []" "list_all isDigit ds"
  shows "parenNumber (p @ '' ('' @ ds @ '')'') = Some ('' ('' @ ds @ '')'', ds)"
proof -
  have nd: "\<not> isDigit (CHR ''('')" by (simp add: isDigit_def)
  have r: "rev (p @ '' ('' @ ds @ '')'') = CHR '')'' # (rev ds @ CHR ''('' # CHR '' '' # rev p)"
    by simp
  have all: "\<forall>x \<in> set (rev ds). isDigit x" using assms(2) by (simp add: list_all_iff)
  have tw: "takeWhile isDigit (rev ds @ CHR ''('' # CHR '' '' # rev p) = rev ds"
    using all nd by (subst takeWhile_append2) auto
  have dw: "dropWhile isDigit (rev ds @ CHR ''('' # CHR '' '' # rev p) = CHR ''('' # CHR '' '' # rev p"
    using all nd by (subst dropWhile_append2) auto
  show ?thesis
    unfolding parenNumber_def r list.case Let_def tw dw using assms(1) by simp
qed

lemma chromePattern_Some:
  "chromePattern s = Some (m0, m1) \<Longrightarrow>
   \<exists>p. s = p @ m0 \<and> m0 \<noteq> [] \<and> list_all isDigit m1"
  using parenNumber_Some[of s m0 m1] by (auto simp: chromePattern_def)

lemma windowsPattern_Some:
  assumes "windowsPattern s = Some (m0, m1)"
  shows "\<exists>p. s = p @ m0 \<and> m0 \<noteq> [] \<and> list_all isDigit m1"
proof (cases "parenNumber s")
  case None
  with assms have h: "HasSuffix s '' - Copy''" and m: "m0 = '' - Copy''" "m1 = []"
    by (auto simp: windowsPattern_def split: if_splits)
  from h have "s = take (length s - length '' - Copy'') s @ '' - Copy''"
    unfolding HasSuffix_def by (metis append_take_drop_id)
  with m show ?thesis by auto
next
  case (Some a)
  obtain m ds where a: "a = (m, ds)" by (cases a)
  from parenNumber_Some[of s m ds] Some a obtain p where
    p: "s = p @ m" "list_all isDigit ds" by auto
  from assms Some a have h: "HasSuffix (take (length s - length m) s) '' - Copy''"
    and m0: "m0 = '' - Copy'' @ m" "m1 = ds"
    by (auto simp: windowsPattern_def split: if_splits)
  from p(1) have "take (length s - length m) s = p" by simp
  with h have "p = take (length p - length '' - Copy'') p @ '' - Copy''"
    unfolding HasSuffix_def by (metis append_take_drop_id)
  with p m0 have "s = take (length p - length '' - Copy'') p @ m0" by simp
  with p m0 show ?thesis by blast
qed

lemma windowsPattern_shorter:
  "windowsPattern s = Some (m0, m1) \<Longrightarrow> length (TrimSuffix s m0) < length s"
  using windowsPattern_Some[of s m0 m1] by (auto simp: TrimSuffix_append)

lemma chromePattern_shorter:
  "chromePattern s = Some (m0, m1) \<Longrightarrow> length (TrimSuffix s m0) < length s"
  using chromePattern_Some[of s m0 m1] by (auto simp: TrimSuffix_append)

subsection \<open>\<open>SplitFileBaseName\<close>\<close>

text \<open>
  The loop of \<open>SplitFileBaseName\<close>: it strips one match per round and adds to the counter
  in 64-bit arithmetic. The error of \<open>strconv.Atoi\<close> is discarded (\<open>n, _ := ...\<close>).
  The deferred function replaces a result with empty prefix and empty extension by the
  original name.
\<close>

function splitLoop :: "string \<Rightarrow> int \<Rightarrow> stop + string \<times> int" where
  "splitLoop prefix counter =
     (case windowsPattern prefix of
        Some (m0, m1) \<Rightarrow>
          (let prefix' = TrimSuffix prefix m0; n = fst (Atoi m1) in
           if n = 0 then splitLoop prefix' (add64 counter 1)
           else if n = 1 then splitLoop prefix' (add64 counter 2)
           else if n < 0 then
             Inl (Panic ''should not have been able to match a negative number'')
           else splitLoop prefix' (add64 counter n))
      | None \<Rightarrow>
          (case chromePattern prefix of
             Some (m0, m1) \<Rightarrow>
               (let prefix' = TrimSuffix prefix m0; n = fst (Atoi m1) in
                if n = 0 then splitLoop prefix' (add64 counter 1)
                else if n < 0 then
                  Inl (Panic ''should not have been able to match a negative number'')
                else splitLoop prefix' (add64 counter n))
           | None \<Rightarrow> Inr (prefix, counter)))"
  by pat_completeness auto
termination
  by (relation "measure (\<lambda>(prefix, counter). length prefix)")
     (auto simp: windowsPattern_shorter chromePattern_shorter)

declare splitLoop.simps [simp del]

definition SplitFileBaseName :: "goos \<Rightarrow> string \<Rightarrow> stop + string \<times> int \<times> string" where
  "SplitFileBaseName g name =
     (let ext = Ext g name;
          prefix = take (length name - length ext) name
      in case splitLoop prefix 0 of
           Inl p \<Rightarrow> Inl p
         | Inr (prefix', counter) \<Rightarrow>
             if prefix' = [] \<and> ext = [] then Inr (name, 0, [])
             else Inr (prefix', counter, ext))"


subsection \<open>Properties of the parser\<close>

lemma digitsValue_nonneg_aux:
  "0 \<le> (v::int) \<Longrightarrow> list_all isDigit ds \<Longrightarrow>
   0 \<le> foldl (\<lambda>v c. v * 10 + (of_char c - 48)) v ds"
proof (induction ds arbitrary: v)
  case Nil
  then show ?case by simp
next
  case (Cons c ds)
  from Cons.prems(2) have "48 \<le> (of_char c :: nat)" by (simp add: isDigit_def)
  then have "48 \<le> int (of_char c :: nat)" by linarith
  then have "48 \<le> (of_char c :: int)" by (simp add: of_char_def)
  with Cons.prems have "0 \<le> v * 10 + (of_char c - 48)" by simp
  with Cons.IH[of "v * 10 + (of_char c - 48)"] Cons.prems(2) show ?case by simp
qed

lemma digitsValue_nonneg: "list_all isDigit ds \<Longrightarrow> 0 \<le> digitsValue ds"
  unfolding digitsValue_def by (rule digitsValue_nonneg_aux) simp_all

lemma Atoi_digits:
  assumes "ds \<noteq> []" "list_all isDigit ds"
  shows "Atoi ds = (if 9223372036854775808 \<le> digitsValue ds
                    then (9223372036854775807, Some ErrRange) else (digitsValue ds, None))"
proof -
  from assms have "isDigit (hd ds)" by (cases ds) simp_all
  then have "hd ds \<noteq> CHR ''-''" "hd ds \<noteq> CHR ''+''"
    by (auto simp: isDigit_def)
  with assms show ?thesis
    by (simp add: Atoi_def Let_def)
qed

lemma Atoi_nonneg: "list_all isDigit ds \<Longrightarrow> 0 \<le> fst (Atoi ds)"
proof (cases "ds = []")
  case True
  then show ?thesis by (simp add: Atoi_def)
next
  case False
  assume "list_all isDigit ds"
  with False show ?thesis
    using digitsValue_nonneg[of ds] by (simp add: Atoi_digits)
qed

lemma splitLoop_returns: "\<exists>p c. splitLoop prefix counter = Inr (p, c)"
proof (induction "length prefix" arbitrary: prefix counter rule: less_induct)
  case less
  show ?case
  proof (cases "windowsPattern prefix")
    case (Some a)
    obtain m0 m1 where a: "a = (m0, m1)" by (cases a)
    from windowsPattern_Some[of prefix m0 m1] Some a have n: "0 \<le> fst (Atoi m1)"
      by (auto intro: Atoi_nonneg)
    from windowsPattern_shorter[of prefix m0 m1] Some a
    have "\<exists>p c. splitLoop (TrimSuffix prefix m0) k = Inr (p, c)" for k
      by (intro less) simp
    with Some a n show ?thesis
      by (subst splitLoop.simps) (simp add: Let_def)
  next
    case None
    show ?thesis
    proof (cases "chromePattern prefix")
      case n2: None
      with None show ?thesis by (subst splitLoop.simps) simp
    next
      case (Some a)
      obtain m0 m1 where a: "a = (m0, m1)" by (cases a)
      from chromePattern_Some[of prefix m0 m1] Some a have n: "0 \<le> fst (Atoi m1)"
        by (auto intro: Atoi_nonneg)
      from chromePattern_shorter[of prefix m0 m1] Some a
      have "\<exists>p c. splitLoop (TrimSuffix prefix m0) k = Inr (p, c)" for k
        by (intro less) simp
      with None Some a n show ?thesis
        by (subst splitLoop.simps) (simp add: Let_def)
    qed
  qed
qed

lemma SplitFileBaseName_returns: "\<exists>r. SplitFileBaseName g name = Inr r"
proof -
  obtain p c where "splitLoop (take (length name - length (Ext g name)) name) 0 = Inr (p, c)"
    using splitLoop_returns by blast
  then show ?thesis by (simp add: SplitFileBaseName_def Let_def)
qed

lemma not_HasSuffix_last:
  "s \<noteq> [] \<Longrightarrow> suffix \<noteq> [] \<Longrightarrow> last s \<noteq> last suffix \<Longrightarrow> \<not> HasSuffix s suffix"
  unfolding HasSuffix_def by (metis append_take_drop_id last_appendR)

lemma windowsPattern_paren:
  assumes "ds \<noteq> []" "list_all isDigit ds"
  shows "windowsPattern (p @ '' ('' @ ds @ '')'') =
           (if HasSuffix p '' - Copy'' then Some ('' - Copy ('' @ ds @ '')'', ds) else None)"
proof -
  have "take (length (p @ '' ('' @ ds @ '')'') - length ('' ('' @ ds @ '')'')) (p @ '' ('' @ ds @ '')'') = p"
    by simp
  then show ?thesis
    unfolding windowsPattern_def parenNumber_digits[OF assms] by simp
qed

lemma HasSuffix_split: "HasSuffix s suffix \<Longrightarrow> s = TrimSuffix s suffix @ suffix"
  by (simp add: TrimSuffix_def HasSuffix_def) (metis append_take_drop_id)

lemma splitLoop_overflowing_number:
  assumes "ds \<noteq> []" "list_all isDigit ds" "9223372036854775808 \<le> digitsValue ds"
  shows "splitLoop (p @ '' ('' @ ds @ '')'') c =
           splitLoop (TrimSuffix p '' - Copy'') (add64 c 9223372036854775807)"
proof -
  have n: "fst (Atoi ds) = 9223372036854775807"
    using assms by (simp add: Atoi_digits)
  define s where "s = p @ '' ('' @ ds @ '')''"
  show ?thesis
  proof (cases "HasSuffix p '' - Copy''")
    case True
    define q where "q = TrimSuffix p '' - Copy''"
    have p: "p = q @ '' - Copy''"
      unfolding q_def using True by (rule HasSuffix_split)
    have w: "windowsPattern s = Some ('' - Copy ('' @ ds @ '')'', ds)"
      unfolding s_def by (simp only: windowsPattern_paren[OF assms(1,2)] True if_True)
    have "s = q @ '' - Copy ('' @ ds @ '')''" by (simp add: s_def p)
    then have t: "TrimSuffix s ('' - Copy ('' @ ds @ '')'') = q"
      by (simp only: TrimSuffix_append)
    have "splitLoop s c = splitLoop q (add64 c 9223372036854775807)"
      by (subst splitLoop.simps) (simp only: w t n Let_def option.case prod.case, simp)
    then show ?thesis by (simp only: s_def q_def)
  next
    case False
    then have q: "TrimSuffix p '' - Copy'' = p" by (simp add: TrimSuffix_def)
    have w: "windowsPattern s = None"
      unfolding s_def by (simp only: windowsPattern_paren[OF assms(1,2)] False if_False)
    have ch: "chromePattern s = Some ('' ('' @ ds @ '')'', ds)"
      unfolding s_def chromePattern_def by (rule parenNumber_digits[OF assms(1,2)])
    have t: "TrimSuffix s ('' ('' @ ds @ '')'') = p"
      unfolding s_def by (rule TrimSuffix_append)
    have "splitLoop s c = splitLoop p (add64 c 9223372036854775807)"
      by (subst splitLoop.simps) (simp only: w ch t n Let_def option.case prod.case, simp)
    then show ?thesis by (simp only: s_def q)
  qed
qed

lemma negative_number_no_match:
  assumes "list_all isDigit ds"
  shows "windowsPattern (p @ '' (-'' @ ds @ '')'') = None"
    and "chromePattern (p @ '' (-'' @ ds @ '')'') = None"
proof -
  let ?s = "p @ '' (-'' @ ds @ '')''"
  have nd: "\<not> isDigit (CHR ''-'')" by (simp add: isDigit_def)
  have r: "rev ?s = CHR '')'' # (rev ds @ CHR ''-'' # CHR ''('' # CHR '' '' # rev p)"
    by simp
  have all: "\<forall>x \<in> set (rev ds). isDigit x" using assms by (simp add: list_all_iff)
  have dw: "dropWhile isDigit (rev ds @ CHR ''-'' # CHR ''('' # CHR '' '' # rev p)
              = CHR ''-'' # CHR ''('' # CHR '' '' # rev p"
    using all nd by (subst dropWhile_append2) auto
  have pn: "parenNumber ?s = None"
    unfolding parenNumber_def r list.case Let_def dw by simp
  then show "chromePattern ?s = None" by (simp add: chromePattern_def)
  have "\<not> HasSuffix ?s '' - Copy''"
    by (rule not_HasSuffix_last) simp_all
  with pn show "windowsPattern ?s = None" by (simp add: windowsPattern_def)
qed


section \<open>The selection heuristic\<close>

text \<open>
  \<^verbatim>\<open>func isDigits(s string) bool {
      if _, err := strconv.Atoi(s); err == nil { return true }
      return false
  }\<close>
\<close>

definition isDigits :: "string \<Rightarrow> bool" where
  "isDigits s \<longleftrightarrow> snd (Atoi s) = None"

text \<open>
  What \<open>fs.FileInfo\<close> reports of a file: name, size, mode bits, modification time (an
  instant, as a number) and whether it is a directory. \<open>f.Stat()\<close> returns it, or an
  error.
\<close>

record FileInfo =
  Name :: string
  Size :: int
  Mode :: "32 word"
  ModTime :: int
  IsDir :: bool

record File =
  Stat :: "error + FileInfo"

definition ModeSymlink :: "32 word" where
  "ModeSymlink = push_bit 27 1"

definition isSymlink :: "FileInfo \<Rightarrow> bool" where
  "isSymlink fi \<longleftrightarrow> Mode fi AND ModeSymlink \<noteq> 0"

definition selectDup :: "goos \<Rightarrow> File \<Rightarrow> File \<Rightarrow> outcome" where
  "selectDup g f1 f2 =
     (case Stat f1 of
        Inl err \<Rightarrow> Inr (None_selection, Some err)
      | Inr fi1 \<Rightarrow>
     (case Stat f2 of
        Inl err \<Rightarrow> Inr (None_selection, Some err)
      | Inr fi2 \<Rightarrow>
        if Size fi1 \<noteq> Size fi2 then
          Inr (None_selection,
               Some (errImpossible (errorString ''comparison on differently sized files'')))
        else if Size fi1 = 0 \<or> Size fi2 = 0 then
          Inr (None_selection,
               Some (errImpossible (errorString ''duplicate selection on empty files'')))
        else if IsDir fi1 \<or> IsDir fi2 then
          Inr (None_selection,
               Some (errImpossible (errorString ''duplicate comparison contained a directory'')))
        else if isSymlink fi1 \<or> isSymlink fi2 then
          Inr (None_selection,
               Some (errImpossible (errorString ''duplicate comparison contained a symlink'')))
        else
          (case SplitFileBaseName g (Name fi1) of
             Inl p \<Rightarrow> Inl p
           | Inr (f1BaseName, f1Counter, f1Ext) \<Rightarrow>
          (case SplitFileBaseName g (Name fi2) of
             Inl p \<Rightarrow> Inl p
           | Inr (f2BaseName, f2Counter, f2Ext) \<Rightarrow>
               if f1Counter > f2Counter then Inr (Left, None)
               else if f1Counter < f2Counter then Inr (Right, None)
               else if f1Ext \<noteq> [] \<and> f2Ext = [] then Inr (Right, None)
               else if f1Ext = [] \<and> f2Ext \<noteq> [] then Inr (Left, None)
               else if isDigits f1BaseName \<and> \<not> isDigits f2BaseName then Inr (Left, None)
               else if \<not> isDigits f1BaseName \<and> isDigits f2BaseName then Inr (Right, None)
               else if ModTime fi1 < ModTime fi2 then Inr (Right, None)
               else if ModTime fi1 > ModTime fi2 then Inr (Left, None)
               else Inr (Right, None)))))"

text \<open>A regular file of 4096 bytes with the given name and modification time.\<close>

definition regular :: "string \<Rightarrow> int \<Rightarrow> File" where
  "regular name mtime =
     \<lparr>Stat = Inr \<lparr>Name = name, Size = 4096, Mode = 420, ModTime = mtime, IsDir = False\<rparr>\<rparr>"

text \<open>The comparison of two files whose contents were found equal.\<close>

definition compareEqualFiles :: "goos \<Rightarrow> (unit, File, nat) CompareFuncContext" where
  "compareEqualFiles g ctx left right w = (selectDup g left right, Suc w)"

section \<open>Handling the duplicates of a bucket\<close>

text \<open>
  \<^verbatim>\<open>for _, i := range dups {
      err := config.H.handle(sizeBucket[i])
      if err != nil { slog.Error("handler error", "file", sizeBucket[i], "err", err) }
  }\<close>
  The handler acts on the world \<open>'h\<close>; the paths it was invoked with are collected in
  order.
\<close>

fun handleDups ::
  "(string \<Rightarrow> 'h \<Rightarrow> error option \<times> 'h) \<Rightarrow> string list \<Rightarrow> int list \<Rightarrow> 'h \<Rightarrow> string list
     \<Rightarrow> (string list \<times> 'h) \<times> stop option" where
  "handleDups H sizeBucket [] h invoked = ((invoked, h), None)"
| "handleDups H sizeBucket (i # dups) h invoked =
     (if i < 0 \<or> int (length sizeBucket) \<le> i then
        ((invoked, h), Some (Panic ''index out of range''))
      else
        (case H (sizeBucket ! nat i) h of
           (None, h') \<Rightarrow> handleDups H sizeBucket dups h' (invoked @ [sizeBucket ! nat i])
         | (Some e, h') \<Rightarrow>
             (case Error e of
                None \<Rightarrow> ((invoked @ [sizeBucket ! nat i], h'), Some StackOverflow)
              | Some m \<Rightarrow> handleDups H sizeBucket dups h' (invoked @ [sizeBucket ! nat i]))))"


section \<open>The claims about the parser and the heuristic\<close>

text \<open>
  Claim C6. \<open>SplitFileBaseName\<close> returns exactly \<open>("flowers", 0, ".jpg")\<close> for
  \<open>"flowers.jpg"\<close>, \<open>("flowers", 1, ".jpg")\<close> for \<open>"flowers (1).jpg"\<close>,
  \<open>("flowers", 2, ".jpg")\<close> for \<open>"flowers - Copy (1).jpg"\<close>, \<open>("flowers", 4, ".jpg")\<close> for
  \<open>"flowers - Copy (3) - Copy.jpg"\<close>, \<open>("flowers", 8, ".jpg")\<close> for
  \<open>"flowers (2) - Copy (4) - Copy - Copy.jpg"\<close>, \<open>("", 0, ".env")\<close> for \<open>".env"\<close> and
  \<open>("flowers - Copy (-1)", 0, ".jpg")\<close> for \<open>"flowers - Copy (-1).jpg"\<close>, on either target
  system; and a parenthesized negative number at the end of a text matches neither
  copy-suffix pattern.
\<close>

theorem SplitFileBaseName_cases:
  "SplitFileBaseName g ''flowers.jpg'' = Inr (''flowers'', 0, ''.jpg'')
   \<and> SplitFileBaseName g ''flowers (1).jpg'' = Inr (''flowers'', 1, ''.jpg'')
   \<and> SplitFileBaseName g ''flowers - Copy (1).jpg'' = Inr (''flowers'', 2, ''.jpg'')
   \<and> SplitFileBaseName g ''flowers - Copy (3) - Copy.jpg'' = Inr (''flowers'', 4, ''.jpg'')
   \<and> SplitFileBaseName g ''flowers (2) - Copy (4) - Copy - Copy.jpg''
        = Inr (''flowers'', 8, ''.jpg'')
   \<and> SplitFileBaseName g ''.env'' = Inr ([], 0, ''.env'')
   \<and> SplitFileBaseName g ''flowers - Copy (-1).jpg'' = Inr (''flowers - Copy (-1)'', 0, ''.jpg'')
   \<and> (list_all isDigit ds \<longrightarrow>
          windowsPattern (p @ '' (-'' @ ds @ '')'') = None
        \<and> chromePattern (p @ '' (-'' @ ds @ '')'') = None)"
proof -
  have lit: "SplitFileBaseName g ''flowers.jpg'' = Inr (''flowers'', 0, ''.jpg'')
   \<and> SplitFileBaseName g ''flowers (1).jpg'' = Inr (''flowers'', 1, ''.jpg'')
   \<and> SplitFileBaseName g ''flowers - Copy (1).jpg'' = Inr (''flowers'', 2, ''.jpg'')
   \<and> SplitFileBaseName g ''flowers - Copy (3) - Copy.jpg'' = Inr (''flowers'', 4, ''.jpg'')
   \<and> SplitFileBaseName g ''flowers (2) - Copy (4) - Copy - Copy.jpg''
        = Inr (''flowers'', 8, ''.jpg'')
   \<and> SplitFileBaseName g ''.env'' = Inr ([], 0, ''.env'')
   \<and> SplitFileBaseName g ''flowers - Copy (-1).jpg'' = Inr (''flowers - Copy (-1)'', 0, ''.jpg'')"
  proof (cases g)
    case linux
    show ?thesis unfolding linux by code_simp
  next
    case windows
    show ?thesis unfolding windows by code_simp
  qed
  from lit negative_number_no_match[of ds p] show ?thesis by blast
qed

theorem SplitFileBaseName_cases_witness:
  "SplitFileBaseName windows ''flowers - Copy (-1).jpg'' = Inr (''flowers - Copy (-1)'', 0, ''.jpg'')
   \<and> list_all isDigit ''1''
   \<and> windowsPattern ''flowers - Copy (-1)'' = None
   \<and> chromePattern ''flowers - Copy (-1)'' = None"
proof -
  have d: "list_all isDigit ''1''" by (simp add: isDigit_def)
  from SplitFileBaseName_cases[of windows "''1''" "''flowers - Copy''"] d
  show ?thesis by simp
qed

text \<open>
  Claim C7, as amended. The guard looks at the prefix as it is when the loop has ended,
  after every recognised copy suffix has been stripped. For every name the loop returns
  a prefix and a counter; \<open>SplitFileBaseName\<close> discards them and returns the original
  name with counter 0 and empty extension exactly when that final prefix is empty and the
  extension is empty, and returns the parse otherwise. So a result with empty prefix and
  empty extension is returned for the empty name only.
\<close>

theorem SplitFileBaseName_guard:
  "\<exists>p c. splitLoop (take (length name - length (Ext g name)) name) 0 = Inr (p, c)
        \<and> SplitFileBaseName g name =
            (if p = [] \<and> Ext g name = [] then Inr (name, 0, []) else Inr (p, c, Ext g name))
        \<and> (SplitFileBaseName g name = Inr ([], k, []) \<longrightarrow> name = [])"
proof -
  obtain p c where l: "splitLoop (take (length name - length (Ext g name)) name) 0 = Inr (p, c)"
    using splitLoop_returns by blast
  then have r: "SplitFileBaseName g name =
      (if p = [] \<and> Ext g name = [] then Inr (name, 0, []) else Inr (p, c, Ext g name))"
    by (simp add: SplitFileBaseName_def Let_def)
  then have "SplitFileBaseName g name = Inr ([], k, []) \<longrightarrow> name = []"
    by (auto split: if_splits)
  with l r show ?thesis by blast
qed

text \<open>
  Claim C7 as stated fails for the name \<open>" (1)"\<close>: extension-splitting leaves the
  non-empty prefix \<open>" (1)"\<close> (and no extension), the parse is \<open>("", 1, "")\<close>, and it is
  discarded all the same. The repository's test expects just that.
\<close>

theorem guard_after_stripping_counterexample:
  "Ext linux '' (1)'' = []
   \<and> take (length '' (1)'' - length (Ext linux '' (1)'')) '' (1)'' = '' (1)''
   \<and> splitLoop '' (1)'' 0 = Inr ([], 1)
   \<and> SplitFileBaseName linux '' (1)'' = Inr ('' (1)'', 0, [])"
  by code_simp

text \<open>
  Claim C8, as amended. \<open>SplitFileBaseName\<close> never raises, whatever the name. A matched
  parenthesized digit string that overflows \<open>int\<close> is not treated as \<open>N = 0\<close>: the range
  error of \<open>strconv.Atoi\<close> is discarded and the value it returns with it, \<open>2^63 - 1\<close>, is
  taken as \<open>N\<close>, so the match adds \<open>2^63 - 1\<close> to the counter (in 64-bit arithmetic),
  under either pattern.
\<close>

theorem SplitFileBaseName_overflowing_number:
  "(\<exists>r. SplitFileBaseName g name = Inr r)
   \<and> (ds \<noteq> [] \<and> list_all isDigit ds \<and> 9223372036854775808 \<le> digitsValue ds \<longrightarrow>
        Atoi ds = (9223372036854775807, Some ErrRange)
      \<and> splitLoop (p @ '' ('' @ ds @ '')'') c =
          splitLoop (TrimSuffix p '' - Copy'') (add64 c 9223372036854775807))"
  using SplitFileBaseName_returns[of g name] splitLoop_overflowing_number[of ds p c]
    Atoi_digits[of ds]
  by simp

theorem SplitFileBaseName_overflowing_number_witness:
  "list_all isDigit ''99999999999999999999''
   \<and> 9223372036854775808 \<le> digitsValue ''99999999999999999999''
   \<and> Atoi ''99999999999999999999'' = (9223372036854775807, Some ErrRange)
   \<and> splitLoop ''a (99999999999999999999)'' 0 = splitLoop ''a'' 9223372036854775807"
proof -
  have h: "''99999999999999999999'' \<noteq> []" "list_all isDigit ''99999999999999999999''"
    "9223372036854775808 \<le> digitsValue ''99999999999999999999''"
    by (simp_all add: isDigit_def digitsValue_def)
  have t: "TrimSuffix ''a'' '' - Copy'' = ''a''" "add64 0 9223372036854775807 = 9223372036854775807"
    by (simp_all add: TrimSuffix_def HasSuffix_def add64_def i64_def)
  from SplitFileBaseName_overflowing_number[of linux "[]" "''99999999999999999999''" "''a''" 0] h
  have "Atoi ''99999999999999999999'' = (9223372036854775807, Some ErrRange)
      \<and> splitLoop (''a'' @ '' ('' @ ''99999999999999999999'' @ '')'') 0 =
          splitLoop (TrimSuffix ''a'' '' - Copy'') (add64 0 9223372036854775807)"
    by blast
  with h t show ?thesis by simp
qed

text \<open>
  Claim C8 as stated fails: twenty nines in the parentheses overflow \<open>int\<close>, and the
  counter is \<open>2^63 - 1\<close>, not 1, under the browser pattern and under the platform pattern.
\<close>

theorem overflowing_number_counterexample:
  "SplitFileBaseName linux ''a (99999999999999999999).jpg''
     = Inr (''a'', 9223372036854775807, ''.jpg'')
   \<and> SplitFileBaseName linux ''a - Copy (99999999999999999999).jpg''
     = Inr (''a'', 9223372036854775807, ''.jpg'')
   \<and> Atoi ''99999999999999999999'' = (9223372036854775807, Some ErrRange)"
  by code_simp

theorem SplitFileBaseName_guard_witness:
  "splitLoop '' (1)'' 0 = Inr ([], 1)
   \<and> SplitFileBaseName linux '' (1).foo'' = Inr ([], 1, ''.foo'')
   \<and> SplitFileBaseName linux [] = Inr ([], 0, [])"
proof -
  have e: "Ext linux '' (1).foo'' = ''.foo''" by code_simp
  have l: "splitLoop '' (1)'' 0 = Inr ([], 1)" by code_simp
  have n: "SplitFileBaseName linux [] = Inr ([], 0, [])" by code_simp
  from SplitFileBaseName_guard[of "'' (1).foo''" linux] SplitFileBaseName_guard[of "[]" linux 0]
    e l n
  show ?thesis by auto
qed

text \<open>
  For a name made of digits only, \<open>isDigits\<close> holds exactly when the number fits \<open>int\<close>.
\<close>

lemma isDigits_digits:
  "ds \<noteq> [] \<Longrightarrow> list_all isDigit ds \<Longrightarrow> isDigits ds \<longleftrightarrow> digitsValue ds < 9223372036854775808"
  by (simp add: isDigits_def Atoi_digits)

text \<open>
  Claim C5 fails in its third rule. The prefix \<open>12345678901234567890\<close> is composed
  entirely of decimal digits, but \<open>isDigits\<close> asks \<open>strconv.Atoi\<close>, which reports a range
  error for it; so the rule does not fire, the modification time decides, and the newer
  file \<open>holiday.jpg\<close> is selected instead of the digits-only one.
\<close>

theorem digits_only_name_not_recognised:
  "list_all isDigit ''12345678901234567890''
   \<and> \<not> isDigits ''12345678901234567890''
   \<and> \<not> isDigits ''holiday''
   \<and> selectDup linux (regular ''12345678901234567890.jpg'' 100) (regular ''holiday.jpg'' 200)
       = Inr (Right, None)
   \<and> selectDup windows (regular ''12345678901234567890.jpg'' 100) (regular ''holiday.jpg'' 200)
       = Inr (Right, None)"
  by code_simp

section \<open>The claims about errors and results\<close>

text \<open>A file of another size than \<open>regular\<close> files: it should never share their bucket.\<close>

definition larger :: File where
  "larger = \<lparr>Stat = Inr \<lparr>Name = ''b'', Size = 8192, Mode = 420, ModTime = 2, IsDir = False\<rparr>\<rparr>"

lemma selectDup_larger:
  "selectDup g (regular ''a'' 1) larger =
     Inr (None_selection,
          Some (errImpossible (errorString ''comparison on differently sized files'')))"
  by (simp add: selectDup_def regular_def larger_def)

text \<open>
  Claim C9 fails. The \<open>Error\<close> method of \<open>errImpossible\<close> calls itself on its receiver
  (\<open>e.Error()\<close> where \<open>e.e.Error()\<close> was meant), so computing the message never returns.
  When the selection heuristic finds files of different sizes, \<open>IndexesContext\<close> hands
  the error to \<open>slog.Error\<close>, the message is asked for, and the run ends in a stack
  overflow instead of skipping the pair.
\<close>

theorem impossible_error_message_never_returns:
  "Error (errImpossible e) = None
   \<and> selectDup g (regular ''a'' 1) larger =
       Inr (None_selection,
            Some (errImpossible (errorString ''comparison on differently sized files'')))
   \<and> snd (IndexesContext () [regular ''a'' 1, larger] (compareEqualFiles g) 0)
       = Some StackOverflow"
proof -
  have "snd (IndexesContext () [regular ''a'' 1, larger] (compareEqualFiles g) 0)
          = Some StackOverflow"
  proof (cases g)
    case linux
    show ?thesis unfolding linux by code_simp
  next
    case windows
    show ?thesis unfolding windows by code_simp
  qed
  with Error_errImpossible[of e] selectDup_larger[of g] show ?thesis by simp
qed

subsection \<open>The result of a pass and its handling\<close>

lemma handleDups_invoked:
  assumes "\<forall>i \<in> set dups. 0 \<le> i \<and> i < int (length sizeBucket)"
    and "handleDups H sizeBucket dups h acc = ((invoked, h'), stop')"
  shows "stop' \<noteq> Some (Panic ''index out of range'')
       \<and> (stop' = None \<longrightarrow> invoked = acc @ map (\<lambda>i. sizeBucket ! nat i) dups)"
  using assms
proof (induction dups arbitrary: h acc)
  case Nil
  then show ?case by simp
next
  case (Cons i dups)
  from Cons.prems(1) have i: "\<not> (i < 0 \<or> int (length sizeBucket) \<le> i)"
    and rest: "\<forall>i \<in> set dups. 0 \<le> i \<and> i < int (length sizeBucket)"
    by auto
  obtain err h1 where H: "H (sizeBucket ! nat i) h = (err, h1)" by (metis surj_pair)
  show ?case
  proof (cases "\<exists>e. err = Some e \<and> Error e = None")
    case True
    with Cons.prems(2) i H show ?thesis by auto
  next
    case False
    with Cons.prems(2) i H
    have "handleDups H sizeBucket dups h1 (acc @ [sizeBucket ! nat i]) = ((invoked, h'), stop')"
      by (cases err) (auto split: option.splits)
    from Cons.IH[OF rest this] show ?thesis by simp
  qed
qed

text \<open>The dry-run handler prints the file and reports no error; the world is the output.\<close>

definition dryRun :: "string \<Rightarrow> string list \<Rightarrow> error option \<times> string list" where
  "dryRun file out = (None, out @ [file])"

text \<open>
  Claim C3, as amended. For every candidate list and every compare function, the value
  the deduplicator returns is a list of indices into the candidate list: it has one
  entry for each comparison that ended \<open>Left\<close> (the row of the pair) or \<open>Right\<close> (its
  col), in the order in which these comparisons were made, which is the row-major order
  of the pairs and not the ascending order of the indices. The handler is invoked once
  per entry of the list, in the order of the list, with the candidate at that index.
\<close>

theorem duplicates_in_scan_order:
  assumes "IndexesContext ctx input compareFn w = (st, None)"
  shows "duplicates st = List.map_filter decided (calls st)
       \<and> sorted_wrt before (calls st)
       \<and> (\<forall>i \<in> set (duplicates st). 0 \<le> i \<and> i < int (length input))
       \<and> (\<forall>H h invoked h' stop'.
             handleDups H input (duplicates st) h [] = ((invoked, h'), stop') \<longrightarrow>
             stop' \<noteq> Some (Panic ''index out of range'')
           \<and> (stop' = None \<longrightarrow> invoked = map (\<lambda>i. input ! nat i) (duplicates st)))"
proof -
  from IndexesContext_scanned[OF assms]
  have sc: "scanned (int (length input)) (calls st)"
    and d: "duplicates st = List.map_filter decided (calls st)"
    by simp_all
  have rng: "0 \<le> i \<and> i < int (length input)" if "i \<in> set (duplicates st)" for i
  proof -
    from that d obtain k where k: "k \<in> set (calls st)" "decided k = Some i"
      by (auto simp: map_filter_def)
    obtain r c res where kk: "k = (r, c, res)" by (metis prod_cases3)
    from sc k(1) kk have "0 \<le> r" "r < c" "c < int (length input)"
      by (auto simp: scanned_def in_scan_def)
    with k(2) kk show ?thesis
      by (auto simp: decided_def split: if_splits)
  qed
  then have all: "\<forall>i \<in> set (duplicates st). 0 \<le> i \<and> i < int (length input)" by blast
  from handleDups_invoked[OF all] have
    "\<forall>H h invoked h' stop'.
       handleDups H input (duplicates st) h [] = ((invoked, h'), stop') \<longrightarrow>
       stop' \<noteq> Some (Panic ''index out of range'')
     \<and> (stop' = None \<longrightarrow> invoked = map (\<lambda>i. input ! nat i) (duplicates st))"
    by fastforce
  with sc d all show ?thesis by (simp add: scanned_def)
qed

theorem duplicates_in_scan_order_witness:
  "returned (IndexesContext () [''a'', ''b'', ''c''] third_is_copy 0) = Some [2, 2]
   \<and> List.map_filter decided
        [(0, 1, Inr (None_selection, Some (errorString ''read failed''))),
         (0, 2, Inr (Right, None)), (1, 2, Inr (Right, None))] = [2, 2]
   \<and> handleDups dryRun [''a'', ''b'', ''c''] [2, 2] [] [] = (([''c'', ''c''], [''c'', ''c'']), None)"
proof -
  define st where "st = fst (IndexesContext () [''a'', ''b'', ''c''] third_is_copy 0)"
  have run: "IndexesContext () [''a'', ''b'', ''c''] third_is_copy 0 = (st, None)"
    by (simp add: st_def third_is_copy_run)
  have ds: "duplicates st = [2, 2]"
    and cs: "calls st = [(0, 1, Inr (None_selection, Some (errorString ''read failed''))),
         (0, 2, Inr (Right, None)), (1, 2, Inr (Right, None))]"
    by (simp_all add: st_def third_is_copy_run)
  have h: "handleDups dryRun [''a'', ''b'', ''c''] [2, 2] [] [] = (([''c'', ''c''], [''c'', ''c'']), None)"
    by (simp add: dryRun_def)
  from duplicates_in_scan_order[OF run]
  have "duplicates st = List.map_filter decided (calls st)" by blast
  with ds cs h run show ?thesis by (simp add: returned_def)
qed

text \<open>
  Claim C3 as stated fails on both counts. Three files with the same content, where the
  second is judged a copy of the first and the first a copy of the third, give the
  result \<open>[1, 0]\<close>, which is not ascending. Where the first comparison of three such
  files fails, index 2 is entered twice, and the handler will be invoked twice for it.
\<close>

theorem result_not_ascending_set_counterexample:
  "returned (IndexesContext ()
      [regular ''flowers (1).jpg'' 30, regular ''flowers (2).jpg'' 20, regular ''flowers.jpg'' 10]
      (compareEqualFiles windows) 0) = Some [1, 0]
   \<and> returned (IndexesContext () [''a'', ''b'', ''c''] third_is_copy 0) = Some [2, 2]"
proof -
  have "returned (IndexesContext ()
      [regular ''flowers (1).jpg'' 30, regular ''flowers (2).jpg'' 20, regular ''flowers.jpg'' 10]
      (compareEqualFiles windows) 0) = Some [1, 0]"
    by code_simp
  then show ?thesis by (simp add: returned_def third_is_copy_run)
qed

end
